theory Spec2Isabelle
  imports Complex_Main "HOL-Library.Word"
begin

unbundle bit_operations_syntax

section \<open>Data model\<close>

text \<open>
  A \<open>Uint8Array\<close> is a list of 8-bit words. JavaScript numbers are modelled by their exact
  values: \<open>nat\<close> for lengths, indices and the unsigned header fields, \<open>int\<close> for the
  integers \<open>Math.round\<close> returns, \<open>real\<close> for percentages, coordinates and timestamps.
  Reading a typed array past its end gives \<open>undefined\<close>; where the code does that, the
  model says what becomes of the \<open>undefined\<close>.

  Two things of the engine are parameters of the functions that depend on them. The
  playback clock adds and subtracts doubles: every such operation is the exact one
  followed by the rounding \<open>rnd\<close> of binary64, and the theorems say what they assume of
  \<open>rnd\<close>. \<open>decompressRLE\<close> allocates a buffer whose length it is given, and the
  engine refuses a length above \<open>maxLength\<close>.
\<close>

type_synonym byte = "8 word"

datatype error =
    InvalidBuffer          \<comment> \<open>\<open>Error("Invalid hologlyph buffer")\<close>\<close>
  | InvalidMagic           \<comment> \<open>\<open>Error("Invalid magic")\<close>\<close>
  | NotMultipleOf4         \<comment> \<open>\<open>Error("Voxel data must be multiple of 4 bytes")\<close>\<close>
  | UnknownCompression nat \<comment> \<open>\<open>Error("Unknown compression type: ...")\<close>\<close>
  | RangeError             \<comment> \<open>\<open>RangeError\<close> of \<open>new Uint8Array(n)\<close>: no array of length \<open>n\<close>\<close>

section \<open>Utility functions\<close>

definition clamp :: "real \<Rightarrow> real \<Rightarrow> real \<Rightarrow> real" where
  "clamp v lo hi = min (max v lo) hi"

text \<open>\<open>Math.round\<close>: the nearest integer, a tie going up.\<close>

definition Math_round :: "real \<Rightarrow> int" where
  "Math_round x = \<lfloor>x + 1 / 2\<rfloor>"

definition percentToByte :: "real \<Rightarrow> int" where
  "percentToByte percent = (let p = clamp percent 0 100 in Math_round ((p / 100) * 255))"

definition byteToPercent :: "real \<Rightarrow> int" where
  "byteToPercent byte = (let b = clamp byte 0 255 in Math_round ((b / 255) * 100))"

section \<open>HSBA pixel utilities\<close>

text \<open>The object form \<open>{h, s, b, a}\<close>, which \<open>normalizeHsbaInput\<close> returns as it is.\<close>

record hsba =
  hsba_h :: real
  hsba_s :: real
  hsba_b :: real
  hsba_a :: real

text \<open>What \<open>decodePixel\<close> returns: four integers.\<close>

record pixel =
  px_h :: int
  px_s :: int
  px_b :: int
  px_a :: int

definition encodePixel :: "hsba \<Rightarrow> byte list" where
  "encodePixel inp =
     (let hByte = clamp (real_of_int (Math_round (hsba_h inp))) 0 255;
          sByte = percentToByte (hsba_s inp);
          bByte = percentToByte (hsba_b inp);
          aByte = percentToByte (hsba_a inp)
      in [of_int \<lfloor>hByte\<rfloor>, of_int sByte, of_int bByte, of_int aByte])"

text \<open>
  \<open>const [h, sByte, bByte, aByte] = bytes\<close>: a component missing from a short array is
  \<open>undefined\<close>, and \<open>Number(undefined) || 0\<close> is 0.
\<close>

definition component :: "byte list \<Rightarrow> nat \<Rightarrow> real" where
  "component bytes i = (if i < length bytes then real (unat (bytes ! i)) else 0)"

definition decodePixel :: "byte list \<Rightarrow> pixel" where
  "decodePixel bytes =
     \<lparr> px_h = \<lfloor>clamp (component bytes 0) 0 255\<rfloor>,
       px_s = byteToPercent (component bytes 1),
       px_b = byteToPercent (component bytes 2),
       px_a = byteToPercent (component bytes 3) \<rparr>"

section \<open>Header\<close>

definition HOLOGLYPH_MAGIC :: string where
  "HOLOGLYPH_MAGIC = ''HGLY''"

definition HOLOGLYPH_VERSION :: nat where
  "HOLOGLYPH_VERSION = 1"

definition COLOR_MODEL_HSBA_255_100 :: nat where
  "COLOR_MODEL_HSBA_255_100 = 0"

definition COMPRESSION_TYPE_NONE :: nat where
  "COMPRESSION_TYPE_NONE = 0"

definition COMPRESSION_TYPE_RLE :: nat where
  "COMPRESSION_TYPE_RLE = 1"

definition MAX_RLE_RUN :: nat where
  "MAX_RLE_RUN = 255"

text \<open>The options of \<open>createHologlyphHeader\<close>, every one a non-negative integer but \<open>loop\<close>.\<close>

record options =
  opt_width :: nat
  opt_height :: nat
  opt_depth :: nat
  opt_frameCount :: nat
  opt_frameDurationMs :: nat
  opt_loop :: bool
  opt_loopStartFrame :: nat
  opt_bytesPerVoxel :: nat
  opt_colorModel :: nat
  opt_compressionType :: nat

definition default_options :: options where
  "default_options =
     \<lparr> opt_width = 32, opt_height = 32, opt_depth = 32, opt_frameCount = 1,
       opt_frameDurationMs = 100, opt_loop = True, opt_loopStartFrame = 0,
       opt_bytesPerVoxel = 4, opt_colorModel = COLOR_MODEL_HSBA_255_100,
       opt_compressionType = COMPRESSION_TYPE_NONE \<rparr>"

text \<open>
  \<open>dv.setUint32(off, v, true)\<close>: the value modulo \<open>2 ^ 32\<close>, least significant byte first.
  Storing a number in a \<open>Uint8Array\<close> keeps it modulo 256, which is what \<open>of_nat\<close> into
  an 8-bit word does.
\<close>

definition setUint32 :: "nat \<Rightarrow> byte list" where
  "setUint32 v =
     (let u = v mod 2 ^ 32
      in [of_nat u, of_nat (u div 256), of_nat (u div 65536), of_nat (u div 16777216)])"

text \<open>\<open>dv.getUint32(off, true)\<close>, for four bytes that are there.\<close>

definition getUint32 :: "byte list \<Rightarrow> nat \<Rightarrow> nat" where
  "getUint32 u8 off =
     unat (u8 ! off) + 256 * unat (u8 ! (off + 1)) + 65536 * unat (u8 ! (off + 2))
       + 16777216 * unat (u8 ! (off + 3))"

text \<open>
  The 28 bytes in the order of their offsets. Bytes 20 to 23 are the reserved word written
  as 0, whose last byte is then overwritten with the compression type.
\<close>

definition createHologlyphHeader :: "options \<Rightarrow> byte list" where
  "createHologlyphHeader opts =
     (let headerSize = 28;
          flags = (if opt_loop opts then (0 :: byte) OR 1 else 0)
      in map of_char HOLOGLYPH_MAGIC
         @ [of_nat HOLOGLYPH_VERSION, of_nat headerSize, flags,
            of_nat (opt_bytesPerVoxel opts), of_nat (opt_width opts), of_nat (opt_height opts),
            of_nat (opt_depth opts), of_nat (opt_colorModel opts)]
         @ setUint32 (opt_frameCount opts)
         @ setUint32 (opt_frameDurationMs opts)
         @ (setUint32 0)[3 := of_nat (opt_compressionType opts)]
         @ setUint32 (opt_loopStartFrame opts))"

record header =
  hdr_magic :: string
  hdr_version :: nat
  hdr_headerSize :: nat
  hdr_loop :: bool
  hdr_loopStartFrame :: nat
  hdr_bytesPerVoxel :: nat
  hdr_width :: nat
  hdr_height :: nat
  hdr_depth :: nat
  hdr_colorModel :: nat
  hdr_compressionType :: nat
  hdr_frameCount :: nat
  hdr_frameDurationMs :: nat
  hdr_frameSizeBytes :: nat
  hdr_dataOffset :: nat

text \<open>The string \<open>parseHologlyphHeader\<close> builds from the first four bytes.\<close>

definition magic_at :: "byte list \<Rightarrow> string" where
  "magic_at u8 = [char_of (unat (u8 ! 0)), char_of (unat (u8 ! 1)),
                  char_of (unat (u8 ! 2)), char_of (unat (u8 ! 3))]"

definition parseHologlyphHeader :: "byte list \<Rightarrow> error + header" where
  "parseHologlyphHeader u8 =
     (if length u8 < 28 then Inl InvalidBuffer
      else
        let magic = [char_of (unat (u8 ! 0)), char_of (unat (u8 ! 1)),
                     char_of (unat (u8 ! 2)), char_of (unat (u8 ! 3))]
        in if magic \<noteq> HOLOGLYPH_MAGIC then Inl InvalidMagic
           else
             let flags = u8 ! 6;
                 loop = (flags AND 1 \<noteq> 0);
                 width = unat (u8 ! 8);
                 height = unat (u8 ! 9);
                 depth = unat (u8 ! 10);
                 bytesPerVoxel = unat (u8 ! 7);
                 frameCount = getUint32 u8 12;
                 frameDurationMs = getUint32 u8 16;
                 loopStartFrame = getUint32 u8 24;
                 compressionType = (if u8 ! 23 \<noteq> 0 then unat (u8 ! 23) else COMPRESSION_TYPE_NONE);
                 frameSizeBytes = width * height * depth * bytesPerVoxel
             in Inr \<lparr> hdr_magic = magic, hdr_version = unat (u8 ! 4), hdr_headerSize = unat (u8 ! 5),
                      hdr_loop = loop, hdr_loopStartFrame = loopStartFrame,
                      hdr_bytesPerVoxel = bytesPerVoxel, hdr_width = width, hdr_height = height,
                      hdr_depth = depth, hdr_colorModel = unat (u8 ! 11),
                      hdr_compressionType = compressionType, hdr_frameCount = frameCount,
                      hdr_frameDurationMs = frameDurationMs, hdr_frameSizeBytes = frameSizeBytes,
                      hdr_dataOffset = 28 \<rparr>)"

section \<open>Run-length compression\<close>

text \<open>
  \<open>arr[i]\<close> on a typed array: the byte, or \<open>undefined\<close> (\<open>None\<close>) past the end. An
  \<open>undefined\<close> stored into a \<open>Uint8Array\<close> becomes 0.
\<close>

definition elemAt :: "byte list \<Rightarrow> nat \<Rightarrow> byte option" where
  "elemAt arr i = (if i < length arr then Some (arr ! i) else None)"

definition toUint8 :: "byte option \<Rightarrow> byte" where
  "toUint8 v = (case v of Some x \<Rightarrow> x | None \<Rightarrow> 0)"

text \<open>
  The inner loop of \<open>compressRLE\<close>, from its state \<open>(count, j)\<close> to the state it leaves:
  it counts the voxels equal to \<open>(h, s, b, a)\<close> that follow, up to \<open>MAX_RLE_RUN\<close>.
\<close>

function count_run ::
  "byte list \<Rightarrow> byte option \<Rightarrow> byte option \<Rightarrow> byte option \<Rightarrow> byte option \<Rightarrow> nat \<Rightarrow> nat \<Rightarrow> nat \<times> nat"
where
  "count_run voxelData h s b a count j =
     (if j < length voxelData \<and> count < MAX_RLE_RUN then
        (if elemAt voxelData j = h \<and> elemAt voxelData (j + 1) = s
            \<and> elemAt voxelData (j + 2) = b \<and> elemAt voxelData (j + 3) = a
         then count_run voxelData h s b a (count + 1) (j + 4)
         else (count, j))
      else (count, j))"
  by pat_completeness auto
termination
  by (relation "measure (\<lambda>(voxelData, h, s, b, a, count, j). length voxelData - j)") auto

declare count_run.simps [simp del]

lemma count_run_advances: "j \<le> snd (count_run voxelData h s b a count j)"
proof (induction voxelData h s b a count j rule: count_run.induct)
  case (1 voxelData h s b a count j)
  show ?case
  proof (cases "j < length voxelData \<and> count < MAX_RLE_RUN
      \<and> elemAt voxelData j = h \<and> elemAt voxelData (j + 1) = s
      \<and> elemAt voxelData (j + 2) = b \<and> elemAt voxelData (j + 3) = a")
    case True
    then have "j + 4 \<le> snd (count_run voxelData h s b a (count + 1) (j + 4))"
      using "1.IH" by blast
    moreover have "count_run voxelData h s b a count j
        = count_run voxelData h s b a (count + 1) (j + 4)"
      using True by (subst count_run.simps) simp
    ultimately show ?thesis by simp
  next
    case False
    then have "count_run voxelData h s b a count j = (count, j)"
      by (subst count_run.simps) auto
    then show ?thesis by simp
  qed
qed

text \<open>
  The outer loop, from \<open>i\<close> and the bytes pushed so far. The numbers pushed are
  converted by \<open>new Uint8Array(compressed)\<close> at the end; the model converts each as it is
  pushed.
\<close>

function compress_loop :: "byte list \<Rightarrow> nat \<Rightarrow> byte list \<Rightarrow> byte list" where
  "compress_loop voxelData i compressed =
     (if i < length voxelData then
        (let h = elemAt voxelData i;
             s = elemAt voxelData (i + 1);
             b = elemAt voxelData (i + 2);
             a = elemAt voxelData (i + 3);
             r = count_run voxelData h s b a 1 (i + 4)
         in compress_loop voxelData (snd r)
              (compressed @ [of_nat (fst r), toUint8 h, toUint8 s, toUint8 b, toUint8 a]))
      else compressed)"
  by pat_completeness auto
termination
proof (relation "measure (\<lambda>(voxelData, i, compressed). length voxelData - i)")
  show "wf (measure (\<lambda>(voxelData, i, compressed). length voxelData - i))" by simp
next
  fix voxelData :: "byte list" and i :: nat and compressed :: "byte list"
    and h s b a :: "byte option" and r :: "nat \<times> nat"
  assume lt: "i < length voxelData"
    and r: "r = count_run voxelData h s b a 1 (i + 4)"
  have "i + 4 \<le> snd r" unfolding r by (rule count_run_advances)
  with lt show "((voxelData, snd r, compressed @ [of_nat (fst r), toUint8 h, toUint8 s, toUint8 b, toUint8 a]),
                 (voxelData, i, compressed))
                \<in> measure (\<lambda>(voxelData, i, compressed). length voxelData - i)"
    by simp
qed

declare compress_loop.simps [simp del]

definition compressRLE :: "byte list \<Rightarrow> error + byte list" where
  "compressRLE voxelData =
     (if length voxelData = 0 then Inr []
      else if length voxelData mod 4 \<noteq> 0 then Inl NotMultipleOf4
      else Inr (compress_loop voxelData 0 []))"

text \<open>
  The \<open>for\<close> loop of \<open>decompressRLE\<close> with \<open>n\<close> iterations left, on the state
  \<open>(decompressed, writePos)\<close>. It stops early when the next voxel would not fit.
\<close>

fun write_run ::
  "nat \<Rightarrow> byte \<Rightarrow> byte \<Rightarrow> byte \<Rightarrow> byte \<Rightarrow> nat \<Rightarrow> byte list \<times> nat \<Rightarrow> byte list \<times> nat"
where
  "write_run 0 h s b a expectedLength st = st"
| "write_run (Suc n) h s b a expectedLength (decompressed, writePos) =
     (if writePos + 4 > expectedLength then (decompressed, writePos)
      else write_run n h s b a expectedLength
             (decompressed[writePos := h, writePos + 1 := s, writePos + 2 := b, writePos + 3 := a],
              writePos + 4))"

function decompress_loop ::
  "byte list \<Rightarrow> nat \<Rightarrow> nat \<Rightarrow> byte list \<times> nat \<Rightarrow> byte list \<times> nat"
where
  "decompress_loop compressedData expectedLength readPos (decompressed, writePos) =
     (if readPos < length compressedData \<and> writePos < expectedLength then
        (let count = unat (compressedData ! readPos);
             h = toUint8 (elemAt compressedData (readPos + 1));
             s = toUint8 (elemAt compressedData (readPos + 2));
             b = toUint8 (elemAt compressedData (readPos + 3));
             a = toUint8 (elemAt compressedData (readPos + 4))
         in decompress_loop compressedData expectedLength (readPos + 5)
              (write_run count h s b a expectedLength (decompressed, writePos)))
      else (decompressed, writePos))"
  by pat_completeness auto
termination
  by (relation "measure (\<lambda>(compressedData, expectedLength, readPos, st). length compressedData - readPos)")
     auto

declare decompress_loop.simps [simp del]

text \<open>What \<open>console.warn\<close> is given.\<close>

datatype warning =
  RLEMismatch nat nat  \<comment> \<open>\<open>RLE decompression mismatch: expected ..., got ...\<close>\<close>

text \<open>
  \<open>new Uint8Array(expectedLength)\<close> throws a \<open>RangeError\<close> for a length above
  \<open>2 ^ 53 - 1\<close>, and for a length the engine does not allocate: anything above its
  \<open>maxLength\<close>, which differs from engine to engine. \<open>decompressRLE\<close> is the one place
  where the code allocates a length that it is given (\<open>decompressGlyfFile\<close> reads it
  from the header of the file); every other array the code makes has the length of data
  that is in memory already, plus 28 for a header, and is taken to be allocated.
\<close>

definition MAX_SAFE_INTEGER :: nat where
  "MAX_SAFE_INTEGER = 2 ^ 53 - 1"

definition allocatable :: "nat \<Rightarrow> nat \<Rightarrow> bool" where
  "allocatable maxLength n = (n \<le> MAX_SAFE_INTEGER \<and> n \<le> maxLength)"

text \<open>
  \<open>decompressRLE\<close> up to the end of its \<open>while\<close> loop: the buffer and \<open>writePos\<close>.
\<close>

definition decompressRLE_run :: "nat \<Rightarrow> byte list \<Rightarrow> nat \<Rightarrow> error + byte list \<times> nat" where
  "decompressRLE_run maxLength compressedData expectedLength =
     (if \<not> allocatable maxLength expectedLength then Inl RangeError
      else Inr (decompress_loop compressedData expectedLength 0 (replicate expectedLength 0, 0)))"

text \<open>
  \<open>decompressRLE\<close> returns the buffer; the second component is what it wrote to the
  console, which is no part of the value returned.
\<close>

definition decompressRLE ::
  "nat \<Rightarrow> byte list \<Rightarrow> nat \<Rightarrow> error + byte list \<times> warning list"
where
  "decompressRLE maxLength compressedData expectedLength =
     (case decompressRLE_run maxLength compressedData expectedLength of
        Inl e \<Rightarrow> Inl e
      | Inr (decompressed, writePos) \<Rightarrow>
          Inr (decompressed,
               if writePos \<noteq> expectedLength then [RLEMismatch expectedLength writePos] else []))"

section \<open>Whole files\<close>

definition compressGlyfFile :: "byte list \<Rightarrow> error + byte list" where
  "compressGlyfFile buffer =
     (case parseHologlyphHeader buffer of
        Inl e \<Rightarrow> Inl e
      | Inr header \<Rightarrow>
          if hdr_compressionType header \<noteq> COMPRESSION_TYPE_NONE then Inr buffer
          else
            let voxelData = drop 28 buffer
            in case compressRLE voxelData of
                 Inl e \<Rightarrow> Inl e
               | Inr compressedVoxels \<Rightarrow>
                   let newHeader = createHologlyphHeader
                         \<lparr> opt_width = hdr_width header, opt_height = hdr_height header,
                           opt_depth = hdr_depth header, opt_frameCount = hdr_frameCount header,
                           opt_frameDurationMs = hdr_frameDurationMs header,
                           opt_loop = hdr_loop header,
                           opt_loopStartFrame = hdr_loopStartFrame header,
                           opt_bytesPerVoxel = hdr_bytesPerVoxel header,
                           opt_colorModel = hdr_colorModel header,
                           opt_compressionType = COMPRESSION_TYPE_RLE \<rparr>
                   in Inr (newHeader @ compressedVoxels))"

definition decompressGlyfFile :: "nat \<Rightarrow> byte list \<Rightarrow> error + byte list" where
  "decompressGlyfFile maxLength buffer =
     (case parseHologlyphHeader buffer of
        Inl e \<Rightarrow> Inl e
      | Inr header \<Rightarrow>
          if hdr_compressionType header = COMPRESSION_TYPE_NONE then Inr buffer
          else if hdr_compressionType header = COMPRESSION_TYPE_RLE then
            let compressedVoxels = drop 28 buffer;
                expectedLength = hdr_frameSizeBytes header * hdr_frameCount header
            in case decompressRLE maxLength compressedVoxels expectedLength of
                 Inl e \<Rightarrow> Inl e
               | Inr (decompressedVoxels, warnings) \<Rightarrow>
                   let newHeader = createHologlyphHeader
                         \<lparr> opt_width = hdr_width header, opt_height = hdr_height header,
                           opt_depth = hdr_depth header, opt_frameCount = hdr_frameCount header,
                           opt_frameDurationMs = hdr_frameDurationMs header,
                           opt_loop = hdr_loop header,
                           opt_loopStartFrame = hdr_loopStartFrame header,
                           opt_bytesPerVoxel = hdr_bytesPerVoxel header,
                           opt_colorModel = hdr_colorModel header,
                           opt_compressionType = COMPRESSION_TYPE_NONE \<rparr>
                   in Inr (newHeader @ decompressedVoxels)
          else Inl (UnknownCompression (hdr_compressionType header)))"

section \<open>Player\<close>

text \<open>
  The fields of \<open>HologlyphPlayer\<close> that playback and the per-voxel pass of the renderers
  read or write. \<open>currentFrame\<close> is an integer: \<open>frameCount - 1\<close> is \<open>-1\<close> for an empty
  animation. Time is in milliseconds; \<open>_lastTs\<close> and \<open>_accum\<close> hold doubles.
\<close>

record player =
  pl_u8 :: "byte list"
  pl_width :: nat
  pl_height :: nat
  pl_depth :: nat
  pl_frameCount :: nat
  pl_frameSizeBytes :: nat
  pl_dataOffset :: nat
  pl_frameDurationMs :: nat
  pl_loop :: bool
  pl_loopStartFrame :: nat
  pl_bytesPerVoxel :: nat
  pl_voxelSize :: real
  pl_canvasWidth :: real
  pl_canvasHeight :: real
  pl_currentFrame :: int
  pl_playing :: bool
  pl_lastTs :: real
  pl_accum :: real

definition play :: "player \<Rightarrow> player" where
  "play p = (if pl_playing p then p else p\<lparr>pl_playing := True\<rparr>)"

definition pause :: "player \<Rightarrow> player" where
  "pause p = p\<lparr>pl_playing := False\<rparr>"

text \<open>
  The constructor, without the canvas context and the camera: it decompresses the data
  when the header says so, copies the header into the fields and starts at frame 0.
\<close>

definition newPlayer ::
  "nat \<Rightarrow> byte list \<Rightarrow> bool \<Rightarrow> real \<Rightarrow> real \<Rightarrow> real \<Rightarrow> error + player"
where
  "newPlayer maxLength data autoPlay voxelSize canvasWidth canvasHeight =
     (case parseHologlyphHeader data of
        Inl e \<Rightarrow> Inl e
      | Inr tempHeader \<Rightarrow>
          (case (if hdr_compressionType tempHeader \<noteq> COMPRESSION_TYPE_NONE
                 then decompressGlyfFile maxLength data else Inr data) of
             Inl e \<Rightarrow> Inl e
           | Inr rawData \<Rightarrow>
               (case parseHologlyphHeader rawData of
                  Inl e \<Rightarrow> Inl e
                | Inr header \<Rightarrow>
                    let p = \<lparr> pl_u8 = rawData, pl_width = hdr_width header,
                              pl_height = hdr_height header, pl_depth = hdr_depth header,
                              pl_frameCount = hdr_frameCount header,
                              pl_frameSizeBytes = hdr_frameSizeBytes header,
                              pl_dataOffset = hdr_dataOffset header,
                              pl_frameDurationMs = hdr_frameDurationMs header,
                              pl_loop = hdr_loop header,
                              pl_loopStartFrame = hdr_loopStartFrame header,
                              pl_bytesPerVoxel = hdr_bytesPerVoxel header,
                              pl_voxelSize = voxelSize, pl_canvasWidth = canvasWidth,
                              pl_canvasHeight = canvasHeight, pl_currentFrame = 0,
                              pl_playing = False, pl_lastTs = 0, pl_accum = 0 \<rparr>
                    in Inr (if autoPlay then play p else p))))"

definition advanceFrame :: "player \<Rightarrow> player" where
  "advanceFrame p =
     (if pl_currentFrame p + 1 < int (pl_frameCount p)
      then p\<lparr>pl_currentFrame := pl_currentFrame p + 1\<rparr>
      else if pl_loop p
      then p\<lparr>pl_currentFrame := min (int (pl_loopStartFrame p)) (int (pl_frameCount p) - 1)\<rparr>
      else pause p)"

text \<open>
  The \<open>while\<close> loop of \<open>_loop\<close>. Nothing in the code bounds the number of its
  iterations, so it is a partial function: \<open>None\<close> is the loop that never ends.
  \<open>this._accum -= this.frameDurationMs\<close> stores the difference rounded to a double.
\<close>

partial_function (option) advance_while :: "(real \<Rightarrow> real) \<Rightarrow> player \<Rightarrow> player option" where
  "advance_while rnd p =
     (if pl_accum p \<ge> real (pl_frameDurationMs p)
      then advance_while rnd
             (advanceFrame (p\<lparr>pl_accum := rnd (pl_accum p - real (pl_frameDurationMs p))\<rparr>))
      else Some p)"

text \<open>
  \<open>_loop(ts)\<close>, up to the call of \<open>render\<close>, which leaves the fields alone.
  \<open>this._lastTs || ts\<close> is \<open>ts\<close> when \<open>_lastTs\<close> is 0. The difference \<open>delta\<close> and
  the sum \<open>this._accum += delta\<close> are rounded to doubles.
\<close>

definition player_loop :: "(real \<Rightarrow> real) \<Rightarrow> player \<Rightarrow> real \<Rightarrow> player option" where
  "player_loop rnd p ts =
     (if \<not> pl_playing p then Some p
      else
        let delta = rnd (ts - (if pl_lastTs p \<noteq> 0 then pl_lastTs p else ts))
        in advance_while rnd (p\<lparr>pl_lastTs := ts, pl_accum := rnd (pl_accum p + delta)\<rparr>))"

section \<open>Renderers: the pass over the voxels\<close>

text \<open>\<open>TypedArray.prototype.subarray(begin, end)\<close>: a negative index counts from the end.\<close>

definition subarray :: "byte list \<Rightarrow> int \<Rightarrow> int \<Rightarrow> byte list" where
  "subarray arr begin end' =
     (let len = int (length arr);
          from = (if begin < 0 then max (len + begin) 0 else min begin len);
          to = (if end' < 0 then max (len + end') 0 else min end' len)
      in take (nat (to - from)) (drop (nat from) arr))"

definition getFrameBytes :: "player \<Rightarrow> byte list" where
  "getFrameBytes p =
     (let offset = int (pl_dataOffset p) + pl_currentFrame p * int (pl_frameSizeBytes p)
      in subarray (pl_u8 p) offset (offset + int (pl_frameSizeBytes p)))"

text \<open>
  What a pass hands to the drawing interface, in the order of the calls: for the canvas,
  the arguments of \<open>hsbToRgba\<close> and of \<open>fillRect\<close>; for WebGL, the arguments of
  \<open>_hsbToRgbaArray\<close> and of \<open>_createModelMatrix\<close>, which builds the translation by
  \<open>(x, y, z)\<close>, before \<open>drawElements\<close>.
\<close>

record rect =
  rect_color :: pixel
  rect_x :: real
  rect_y :: real
  rect_w :: real
  rect_h :: real

record cube =
  cube_color :: pixel
  cube_translation :: "real \<times> real \<times> real"

text \<open>The body of the innermost loop, on the state \<open>(index, calls so far)\<close>.\<close>

definition voxel2D :: "player \<Rightarrow> byte list \<Rightarrow> nat \<Rightarrow> nat \<Rightarrow> nat \<Rightarrow> nat \<times> rect list \<Rightarrow> nat \<times> rect list" where
  "voxel2D p frame z y x st =
     (let index = fst st;
          cx = pl_canvasWidth p / 2;
          cy = pl_canvasHeight p / 2;
          isoXZ = 1 / 2;
          isoZY = 1 / 2;
          base = index * pl_bytesPerVoxel p;
          px = subarray frame (int base) (int base + 4);
          c = decodePixel px
      in if px_a c = 0 \<or> px_b c = 0 then (index + 1, snd st)
         else
           let dx = real x - real (pl_width p) / 2;
               dy = real y - real (pl_height p) / 2;
               dz = real z - real (pl_depth p) / 2;
               screenX = cx + (dx - dz * isoXZ) * pl_voxelSize p;
               screenY = cy + (dy + dz * isoZY) * pl_voxelSize p
           in (index + 1,
               snd st @ [\<lparr> rect_color = c, rect_x = screenX, rect_y = screenY,
                           rect_w = pl_voxelSize p, rect_h = pl_voxelSize p \<rparr>]))"

definition render2D :: "player \<Rightarrow> rect list" where
  "render2D p =
     (let frame = getFrameBytes p
      in snd (fold (\<lambda>z. fold (\<lambda>y. fold (\<lambda>x. voxel2D p frame z y x) [0..<pl_width p])
                     [0..<pl_height p])
                [0..<pl_depth p] (0, [])))"

definition voxelWebGL :: "player \<Rightarrow> byte list \<Rightarrow> nat \<Rightarrow> nat \<Rightarrow> nat \<Rightarrow> nat \<times> cube list \<Rightarrow> nat \<times> cube list" where
  "voxelWebGL p frame z y x st =
     (let index = fst st;
          base = index * pl_bytesPerVoxel p;
          px = subarray frame (int base) (int base + 4);
          c = decodePixel px
      in if px_a c = 0 \<or> px_b c = 0 then (index + 1, snd st)
         else (index + 1,
               snd st @ [\<lparr> cube_color = c,
                           cube_translation =
                             (real x - real (pl_width p) / 2,
                              real y - real (pl_height p) / 2,
                              real z - real (pl_depth p) / 2) \<rparr>]))"

definition renderWebGL :: "player \<Rightarrow> cube list" where
  "renderWebGL p =
     (let frame = getFrameBytes p
      in snd (fold (\<lambda>z. fold (\<lambda>y. fold (\<lambda>x. voxelWebGL p frame z y x) [0..<pl_width p])
                     [0..<pl_height p])
                [0..<pl_depth p] (0, [])))"

text \<open>
  What a pass computes for one cell: the decoded colour of the voxel at an index, and the
  call it makes for a cell that is drawn.
\<close>

definition voxelColor :: "player \<Rightarrow> byte list \<Rightarrow> nat \<Rightarrow> pixel" where
  "voxelColor p frame index =
     decodePixel (subarray frame (int (index * pl_bytesPerVoxel p))
                    (int (index * pl_bytesPerVoxel p) + 4))"

definition cubeAt :: "player \<Rightarrow> pixel \<Rightarrow> nat \<Rightarrow> nat \<Rightarrow> nat \<Rightarrow> cube" where
  "cubeAt p c z y x =
     \<lparr> cube_color = c,
       cube_translation = (real x - real (pl_width p) / 2, real y - real (pl_height p) / 2,
                           real z - real (pl_depth p) / 2) \<rparr>"

definition rectAt :: "player \<Rightarrow> pixel \<Rightarrow> nat \<Rightarrow> nat \<Rightarrow> nat \<Rightarrow> rect" where
  "rectAt p c z y x =
     \<lparr> rect_color = c,
       rect_x = pl_canvasWidth p / 2
                + ((real x - real (pl_width p) / 2) - (real z - real (pl_depth p) / 2) * (1 / 2))
                  * pl_voxelSize p,
       rect_y = pl_canvasHeight p / 2
                + ((real y - real (pl_height p) / 2) + (real z - real (pl_depth p) / 2) * (1 / 2))
                  * pl_voxelSize p,
       rect_w = pl_voxelSize p, rect_h = pl_voxelSize p \<rparr>"

section \<open>Playback over several callbacks\<close>



definition keeps_sign :: "(real \<Rightarrow> real) \<Rightarrow> bool" where
  "keeps_sign rnd = (\<forall>x. 0 \<le> x \<longrightarrow> 0 \<le> rnd x)"






section \<open>Run-length compression: the decoded runs\<close>

text \<open>
  What the runs of a compressed sequence stand for, written without a buffer: each
  group of five bytes is a count and a voxel, and stands for that many copies of the
  voxel; bytes missing from the last group are read as \<open>undefined\<close> and stored as 0.
\<close>

fun decoded_runs :: "byte list \<Rightarrow> byte list" where
  "decoded_runs [] = []"
| "decoded_runs (count # rest) =
     concat (replicate (unat count)
       [toUint8 (elemAt rest 0), toUint8 (elemAt rest 1),
        toUint8 (elemAt rest 2), toUint8 (elemAt rest 3)])
     @ decoded_runs (drop 4 rest)"

section \<open>Run-length compression: invariants of the loops\<close>

text \<open>
  The state \<open>(decompressed, writePos)\<close> of \<open>decompressRLE\<close> is \<open>buffer_ok\<close> when the
  buffer has the expected length and is still zero from \<open>writePos\<close> on. A buffer agrees
  with the voxel data up to \<open>i\<close> when it has its length and its first \<open>i\<close> bytes.
\<close>

definition buffer_ok :: "nat \<Rightarrow> byte list \<times> nat \<Rightarrow> bool" where
  "buffer_ok expectedLength st =
     (length (fst st) = expectedLength \<and> snd st \<le> expectedLength
      \<and> (\<forall>i. snd st \<le> i \<and> i < expectedLength \<longrightarrow> fst st ! i = 0))"

definition agree :: "byte list \<Rightarrow> byte list \<Rightarrow> nat \<Rightarrow> bool" where
  "agree decompressed voxelData i =
     (length decompressed = length voxelData \<and> (\<forall>m < i. decompressed ! m = voxelData ! m))"

section \<open>Example files\<close>

text \<open>A grid of two voxels, and a grid of one voxel stored in one byte.\<close>

definition small_grid_options :: options where
  "small_grid_options = default_options\<lparr>opt_width := 1, opt_height := 1, opt_depth := 2\<rparr>"

definition one_byte_voxel_options :: options where
  "one_byte_voxel_options =
     default_options\<lparr>opt_width := 1, opt_height := 1, opt_depth := 1, opt_bytesPerVoxel := 1\<rparr>"

text \<open>The two-voxel grid with a frame duration of 0.\<close>

definition zero_duration_options :: options where
  "zero_duration_options = small_grid_options\<lparr>opt_frameDurationMs := 0\<rparr>"

text \<open>
  The header of a compressed file that announces \<open>2 ^ 32 - 1\<close> frames of
  \<open>255 * 255 * 255\<close> voxels.
\<close>

definition huge_grid_options :: options where
  "huge_grid_options =
     default_options\<lparr>opt_width := 255, opt_height := 255, opt_depth := 255,
       opt_frameCount := 4294967295, opt_compressionType := COMPRESSION_TYPE_RLE\<rparr>"

text \<open>A player on a file of that two-voxel grid, whose first voxel has alpha 0.\<close>

definition render_example_player :: player where
  "render_example_player =
     \<lparr> pl_u8 = createHologlyphHeader small_grid_options @ [0, 255, 255, 0, 10, 255, 255, 255],
       pl_width = 1, pl_height = 1, pl_depth = 2, pl_frameCount = 1,
       pl_frameSizeBytes = 8, pl_dataOffset = 28, pl_frameDurationMs = 100, pl_loop = True,
       pl_loopStartFrame = 0, pl_bytesPerVoxel = 4, pl_voxelSize = 8, pl_canvasWidth = 100,
       pl_canvasHeight = 100, pl_currentFrame = 0, pl_playing = False, pl_lastTs = 0,
       pl_accum = 0 \<rparr>"

section \<open>Pixel codec: quantisation\<close>

lemma percentToByte_int:
  assumes "0 \<le> p" "p \<le> 100"
  shows "percentToByte (real_of_int p) = (51 * p + 10) div 20"
proof -
  have "(real_of_int p / 100) * 255 + 1 / 2 = real_of_int (51 * p + 10) / real_of_int 20"
    by simp
  then have "\<lfloor>(real_of_int p / 100) * 255 + 1 / 2\<rfloor> = (51 * p + 10) div 20"
    by (simp only: floor_divide_of_int_eq)
  with assms show ?thesis
    by (simp add: percentToByte_def clamp_def Math_round_def)
qed

lemma byteToPercent_int:
  assumes "0 \<le> k" "k \<le> 255"
  shows "byteToPercent (real_of_int k) = (40 * k + 51) div 102"
proof -
  have "(real_of_int k / 255) * 100 + 1 / 2 = real_of_int (40 * k + 51) / real_of_int 102"
    by simp
  then have "\<lfloor>(real_of_int k / 255) * 100 + 1 / 2\<rfloor> = (40 * k + 51) div 102"
    by (simp only: floor_divide_of_int_eq)
  with assms show ?thesis
    by (simp add: byteToPercent_def clamp_def Math_round_def)
qed

lemma percentToByte_range:
  assumes "0 \<le> p" "p \<le> 100"
  shows "0 \<le> percentToByte (real_of_int p) \<and> percentToByte (real_of_int p) \<le> 255"
  using assms by (simp add: percentToByte_int) linarith

lemma percent_roundtrip:
  assumes "0 \<le> p" "p \<le> 100"
  shows "byteToPercent (real_of_int (percentToByte (real_of_int p))) = p"
proof -
  have r: "0 \<le> (51 * p + 10) div 20" "(51 * p + 10) div 20 \<le> 255"
    using assms by linarith+
  have "(40 * ((51 * p + 10) div 20) + 51) div 102 = p"
    using assms by linarith
  with r assms show ?thesis
    by (simp add: percentToByte_int byteToPercent_int)
qed

lemma unat_byte_of_int:
  assumes "0 \<le> k" "k \<le> 255"
  shows "real (unat (of_int k :: byte)) = real_of_int k"
proof -
  have "uint (of_int k :: byte) = k mod 256"
    by (simp add: uint_word_of_int)
  with assms have "uint (of_int k :: byte) = k" by simp
  then have "int (unat (of_int k :: byte)) = k" by simp
  then show ?thesis by (metis of_int_of_nat_eq)
qed

text \<open>
  C7. For an integer percentage between 0 and 100, the percentage read back from the
  byte it was stored as (\<open>byteToPercent (percentToByte p)\<close>, which is also the \<open>s\<close> that
  \<open>decodePixel\<close> returns for the pixel \<open>encodePixel\<close> built from \<open>{h, s: p, b: p, a: p}\<close>)
  grows with the percentage and is within 1 of it.
\<close>

theorem percent_byte_percent_monotone_within_one:
  assumes "0 \<le> p" "p \<le> q" "q \<le> 100"
  shows "byteToPercent (real_of_int (percentToByte (real_of_int p)))
           \<le> byteToPercent (real_of_int (percentToByte (real_of_int q)))
       \<and> \<bar>byteToPercent (real_of_int (percentToByte (real_of_int q))) - q\<bar> \<le> 1
       \<and> px_s (decodePixel (encodePixel
             \<lparr> hsba_h = hue, hsba_s = real_of_int q, hsba_b = real_of_int q, hsba_a = real_of_int q \<rparr>))
           = byteToPercent (real_of_int (percentToByte (real_of_int q)))"
proof -
  have q0: "0 \<le> q" using assms by simp
  have p100: "p \<le> 100" using assms by simp
  have rp: "byteToPercent (real_of_int (percentToByte (real_of_int p))) = p"
    using assms(1) p100 by (rule percent_roundtrip)
  have rq: "byteToPercent (real_of_int (percentToByte (real_of_int q))) = q"
    using q0 assms(3) by (rule percent_roundtrip)
  have rng: "0 \<le> percentToByte (real_of_int q) \<and> percentToByte (real_of_int q) \<le> 255"
    using q0 assms(3) by (rule percentToByte_range)
  have "component (encodePixel
          \<lparr> hsba_h = hue, hsba_s = real_of_int q, hsba_b = real_of_int q, hsba_a = real_of_int q \<rparr>) 1
        = real_of_int (percentToByte (real_of_int q))"
    using rng unat_byte_of_int [of "percentToByte (real_of_int q)"]
    by (simp add: component_def encodePixel_def Let_def)
  then have "px_s (decodePixel (encodePixel
          \<lparr> hsba_h = hue, hsba_s = real_of_int q, hsba_b = real_of_int q, hsba_a = real_of_int q \<rparr>))
        = byteToPercent (real_of_int (percentToByte (real_of_int q)))"
    by (simp add: decodePixel_def)
  with rp rq assms show ?thesis by simp
qed

theorem percent_byte_percent_witness:
  "(0::int) \<le> 30 \<and> (30::int) \<le> 70 \<and> (70::int) \<le> 100
   \<and> byteToPercent (real_of_int (percentToByte (real_of_int 30)))
        \<le> byteToPercent (real_of_int (percentToByte (real_of_int 70)))
   \<and> \<bar>byteToPercent (real_of_int (percentToByte (real_of_int 70))) - 70\<bar> \<le> 1"
  using percent_byte_percent_monotone_within_one [of 30 70 0] by simp

section \<open>Header codec\<close>


lemma create_bytes:
  "createHologlyphHeader opts =
     [0x48, 0x47, 0x4C, 0x59, 1, 28, (if opt_loop opts then 1 else 0),
      of_nat (opt_bytesPerVoxel opts), of_nat (opt_width opts), of_nat (opt_height opts),
      of_nat (opt_depth opts), of_nat (opt_colorModel opts)]
     @ setUint32 (opt_frameCount opts) @ setUint32 (opt_frameDurationMs opts)
     @ [0, 0, 0, of_nat (opt_compressionType opts)] @ setUint32 (opt_loopStartFrame opts)"
  by (simp add: createHologlyphHeader_def setUint32_def Let_def HOLOGLYPH_MAGIC_def HOLOGLYPH_VERSION_def)

lemma unat_byte_of_nat: "unat (of_nat n :: byte) = n mod 256"
  by (simp add: unat_of_nat)

lemma u32_bytes:
  fixes u :: nat
  assumes "u < 4294967296"
  shows "u mod 256 + 256 * ((u div 256) mod 256) + 65536 * ((u div 65536) mod 256)
    + 16777216 * ((u div 16777216) mod 256) = u"
proof -
  define a where "a = u div 256"
  define b where "b = a div 256"
  define c where "c = b div 256"
  have e1: "u div 65536 = b"
    unfolding b_def a_def by (simp add: div_mult2_eq [symmetric])
  have e2: "u div 16777216 = c"
    unfolding c_def b_def a_def by (simp add: div_mult2_eq [symmetric])
  have d1: "u = u mod 256 + 256 * a" unfolding a_def by simp
  have d2: "a = a mod 256 + 256 * b" unfolding b_def by simp
  have d3: "b = b mod 256 + 256 * c" unfolding c_def by simp
  have "c < 256" using assms e2 by (simp add: less_mult_imp_div_less)
  then have d4: "c mod 256 = c" by simp
  show ?thesis
    unfolding e1 e2 a_def [symmetric] d4 using d1 d2 d3 by linarith
qed


lemma char_of_unat_eq:
  "(char_of (unat (x :: byte)) = c) = (x = of_char c)"
proof
  have lt: "unat x < 256" using unsigned_less [of x, where 'a = nat] by simp
  assume "char_of (unat x) = c"
  then have "of_char c = (of_char (char_of (unat x)) :: nat)" by simp
  also have "\<dots> = unat x mod 256" by simp
  also have "\<dots> = unat x" using lt by simp
  finally have "(of_nat (of_char c) :: byte) = of_nat (unat x)" by simp
  then show "x = of_char c" by (simp add: of_nat_of_char)
next
  assume "x = of_char c"
  then have "unat x = unat (of_nat (of_char c) :: byte)" by (simp add: of_nat_of_char)
  also have "\<dots> = (of_char c :: nat) mod 256" by (simp add: unat_of_nat)
  finally show "char_of (unat x) = c" by simp
qed

lemma take4:
  assumes "4 \<le> length xs"
  shows "take 4 xs = [xs ! 0, xs ! 1, xs ! 2, xs ! 3]"
proof (rule nth_equalityI)
  show "length (take 4 xs) = length [xs ! 0, xs ! 1, xs ! 2, xs ! 3]"
    using assms by simp
next
  fix i assume "i < length (take 4 xs)"
  then have "i < 4" by simp
  then consider "i = 0" | "i = 1" | "i = 2" | "i = 3" by linarith
  then show "take 4 xs ! i = [xs ! 0, xs ! 1, xs ! 2, xs ! 3] ! i"
    by cases simp_all
qed

lemma magic_at_iff:
  assumes "4 \<le> length u8"
  shows "(magic_at u8 = HOLOGLYPH_MAGIC) = (take 4 u8 = map of_char HOLOGLYPH_MAGIC)"
  unfolding take4 [OF assms] magic_at_def
  by (simp add: HOLOGLYPH_MAGIC_def char_of_unat_eq)

lemma parse_isl:
  "isl (parseHologlyphHeader u8) = (length u8 < 28 \<or> magic_at u8 \<noteq> HOLOGLYPH_MAGIC)"
  unfolding parseHologlyphHeader_def magic_at_def [symmetric] Let_def by simp

lemma parse_version:
  assumes "\<not> length u8 < 28" "magic_at u8 = HOLOGLYPH_MAGIC"
  shows "\<exists>hd. parseHologlyphHeader u8 = Inr hd \<and> hdr_version hd = unat (u8 ! 4)"
  using assms unfolding parseHologlyphHeader_def magic_at_def [symmetric] Let_def by simp

text \<open>
  C8. \<open>parseHologlyphHeader\<close> throws exactly when the input has fewer than 28 bytes or
  its first four bytes are not the magic \<open>HGLY\<close>. In particular a buffer of 28 bytes or
  more with the magic and a version byte above 1 is parsed, and the version is returned.
\<close>

theorem parse_throws_iff:
  "(isl (parseHologlyphHeader u8)
      \<longleftrightarrow> (length u8 < 28 \<or> take 4 u8 \<noteq> map of_char HOLOGLYPH_MAGIC))
   \<and> (28 \<le> length u8 \<and> take 4 u8 = map of_char HOLOGLYPH_MAGIC \<and> 1 < unat (u8 ! 4)
        \<longrightarrow> (\<exists>hd. parseHologlyphHeader u8 = Inr hd \<and> hdr_version hd = unat (u8 ! 4)))"
proof (cases "length u8 < 28")
  case True
  then show ?thesis by (simp add: parse_isl)
next
  case False
  then have "4 \<le> length u8" by simp
  then have m: "(magic_at u8 = HOLOGLYPH_MAGIC) = (take 4 u8 = map of_char HOLOGLYPH_MAGIC)"
    by (rule magic_at_iff)
  show ?thesis
    using False parse_version [of u8] by (auto simp add: parse_isl m)
qed


lemma length_setUint32: "length (setUint32 v) = 4"
  by (simp add: setUint32_def Let_def)

lemma getUint32_at:
  assumes "take 4 (drop off xs) = setUint32 v"
  shows "getUint32 xs off = v mod 2 ^ 32"
proof -
  define u where "u = v mod 4294967296"
  have lt: "u < 4294967296" unfolding u_def by simp
  have len: "off + 4 \<le> length xs"
  proof (rule ccontr)
    assume "\<not> off + 4 \<le> length xs"
    then have "length (take 4 (drop off xs)) < 4" by simp
    then show False using assms by (simp add: length_setUint32)
  qed
  have nth: "xs ! (off + k) = setUint32 v ! k" if "k < 4" for k
  proof -
    have "setUint32 v ! k = take 4 (drop off xs) ! k" using assms by simp
    also have "\<dots> = xs ! (off + k)" using that len by simp
    finally show ?thesis by simp
  qed
  have "xs ! off = setUint32 v ! 0" using nth [of 0] by simp
  moreover have "xs ! (off + 1) = setUint32 v ! 1" using nth [of 1] by simp
  moreover have "xs ! (off + 2) = setUint32 v ! 2" using nth [of 2] by simp
  moreover have "xs ! (off + 3) = setUint32 v ! 3" using nth [of 3] by simp
  ultimately have "getUint32 xs off
      = u mod 256 + 256 * ((u div 256) mod 256) + 65536 * ((u div 65536) mod 256)
        + 16777216 * ((u div 16777216) mod 256)"
    by (simp add: getUint32_def setUint32_def Let_def unat_byte_of_nat u_def)
  also have "\<dots> = u" using lt by (rule u32_bytes)
  finally show ?thesis by (simp add: u_def)
qed

lemma create_frameCount:
  "getUint32 (createHologlyphHeader opts) 12 = opt_frameCount opts mod 2 ^ 32"
  by (rule getUint32_at) (simp add: create_bytes length_setUint32)

lemma create_frameDurationMs:
  "getUint32 (createHologlyphHeader opts) 16 = opt_frameDurationMs opts mod 2 ^ 32"
  by (rule getUint32_at) (simp add: create_bytes length_setUint32)

lemma create_loopStartFrame:
  "getUint32 (createHologlyphHeader opts) 24 = opt_loopStartFrame opts mod 2 ^ 32"
  by (rule getUint32_at) (simp add: create_bytes length_setUint32)

lemma length_create: "length (createHologlyphHeader opts) = 28"
  by (simp add: create_bytes length_setUint32)

lemma create_nth:
  "createHologlyphHeader opts ! 0 = 0x48"
  "createHologlyphHeader opts ! 1 = 0x47"
  "createHologlyphHeader opts ! Suc 0 = 0x47"
  "createHologlyphHeader opts ! 2 = 0x4C"
  "createHologlyphHeader opts ! 3 = 0x59"
  "createHologlyphHeader opts ! 4 = 1"
  "createHologlyphHeader opts ! 5 = 28"
  "createHologlyphHeader opts ! 6 = (if opt_loop opts then 1 else 0)"
  "createHologlyphHeader opts ! 7 = of_nat (opt_bytesPerVoxel opts)"
  "createHologlyphHeader opts ! 8 = of_nat (opt_width opts)"
  "createHologlyphHeader opts ! 9 = of_nat (opt_height opts)"
  "createHologlyphHeader opts ! 10 = of_nat (opt_depth opts)"
  "createHologlyphHeader opts ! 11 = of_nat (opt_colorModel opts)"
  "createHologlyphHeader opts ! 23 = of_nat (opt_compressionType opts)"
  by (simp_all add: create_bytes nth_append length_setUint32)

lemma parse_create:
  "parseHologlyphHeader (createHologlyphHeader opts) =
     Inr \<lparr> hdr_magic = HOLOGLYPH_MAGIC, hdr_version = 1, hdr_headerSize = 28,
           hdr_loop = opt_loop opts, hdr_loopStartFrame = opt_loopStartFrame opts mod 2 ^ 32,
           hdr_bytesPerVoxel = opt_bytesPerVoxel opts mod 256,
           hdr_width = opt_width opts mod 256, hdr_height = opt_height opts mod 256,
           hdr_depth = opt_depth opts mod 256, hdr_colorModel = opt_colorModel opts mod 256,
           hdr_compressionType = opt_compressionType opts mod 256,
           hdr_frameCount = opt_frameCount opts mod 2 ^ 32,
           hdr_frameDurationMs = opt_frameDurationMs opts mod 2 ^ 32,
           hdr_frameSizeBytes = (opt_width opts mod 256) * (opt_height opts mod 256)
              * (opt_depth opts mod 256) * (opt_bytesPerVoxel opts mod 256),
           hdr_dataOffset = 28 \<rparr>"
proof -
  have "take 4 (createHologlyphHeader opts) = map of_char HOLOGLYPH_MAGIC"
    by (simp add: create_bytes HOLOGLYPH_MAGIC_def)
  then have m: "magic_at (createHologlyphHeader opts) = HOLOGLYPH_MAGIC"
    by (simp add: magic_at_iff length_create)
  have z: "(word_of_nat (opt_compressionType opts) = (0 :: byte))
             = (opt_compressionType opts mod 256 = 0)"
    by (metis unat_byte_of_nat unat_eq_zero)
  show ?thesis
    unfolding parseHologlyphHeader_def magic_at_def [symmetric] Let_def
    by (simp add: m length_create create_nth create_frameCount create_frameDurationMs
        create_loopStartFrame unat_byte_of_nat COMPRESSION_TYPE_NONE_def z)
qed


theorem parse_throws_iff_witness:
  "28 \<le> length ([0x48, 0x47, 0x4C, 0x59, 2, 28, 1, 4, 2, 2, 2, 0, 1, 0, 0, 0,
                    100, 0, 0, 0, 0, 0, 0, 0, 0, 0, 0, 0] :: byte list)
   \<and> take 4 ([0x48, 0x47, 0x4C, 0x59, 2, 28, 1, 4, 2, 2, 2, 0, 1, 0, 0, 0,
               100, 0, 0, 0, 0, 0, 0, 0, 0, 0, 0, 0] :: byte list) = map of_char HOLOGLYPH_MAGIC
   \<and> (\<exists>hd. parseHologlyphHeader [0x48, 0x47, 0x4C, 0x59, 2, 28, 1, 4, 2, 2, 2, 0, 1, 0, 0, 0,
                                   100, 0, 0, 0, 0, 0, 0, 0, 0, 0, 0, 0] = Inr hd
             \<and> hdr_version hd = 2)"
  using parse_throws_iff [of "[0x48, 0x47, 0x4C, 0x59, 2, 28, 1, 4, 2, 2, 2, 0, 1, 0, 0, 0,
                               100, 0, 0, 0, 0, 0, 0, 0, 0, 0, 0, 0]"]
  by (simp add: HOLOGLYPH_MAGIC_def)

text \<open>
  C3. For options that fit their header fields (the one-byte fields at most 255, which
  covers the grid dimensions 1 to 255, and the four-byte fields below \<open>2 ^ 32\<close>), parsing
  the header built from them gives back every option.
\<close>

theorem parse_create_reproduces_options:
  assumes "opt_width opts \<le> 255" "opt_height opts \<le> 255" "opt_depth opts \<le> 255"
    and "opt_bytesPerVoxel opts \<le> 255" "opt_colorModel opts \<le> 255"
    and "opt_compressionType opts \<le> 255"
    and "opt_frameCount opts < 2 ^ 32" "opt_frameDurationMs opts < 2 ^ 32"
    and "opt_loopStartFrame opts < 2 ^ 32"
  shows "\<exists>hd. parseHologlyphHeader (createHologlyphHeader opts) = Inr hd
           \<and> hdr_width hd = opt_width opts \<and> hdr_height hd = opt_height opts
           \<and> hdr_depth hd = opt_depth opts \<and> hdr_frameCount hd = opt_frameCount opts
           \<and> hdr_frameDurationMs hd = opt_frameDurationMs opts \<and> hdr_loop hd = opt_loop opts
           \<and> hdr_loopStartFrame hd = opt_loopStartFrame opts
           \<and> hdr_bytesPerVoxel hd = opt_bytesPerVoxel opts
           \<and> hdr_colorModel hd = opt_colorModel opts
           \<and> hdr_compressionType hd = opt_compressionType opts"
  using assms by (simp add: parse_create)

theorem parse_create_reproduces_options_witness:
  "opt_width default_options \<le> 255 \<and> opt_frameCount default_options < 2 ^ 32
   \<and> (\<exists>hd. parseHologlyphHeader (createHologlyphHeader default_options) = Inr hd
          \<and> hdr_width hd = 32 \<and> hdr_height hd = 32 \<and> hdr_depth hd = 32
          \<and> hdr_frameCount hd = 1 \<and> hdr_frameDurationMs hd = 100 \<and> hdr_loop hd
          \<and> hdr_loopStartFrame hd = 0 \<and> hdr_bytesPerVoxel hd = 4
          \<and> hdr_colorModel hd = 0 \<and> hdr_compressionType hd = 0)"
  using parse_create_reproduces_options [of default_options]
  by (simp add: default_options_def COLOR_MODEL_HSBA_255_100_def COMPRESSION_TYPE_NONE_def)

lemma parse_append:
  assumes "28 \<le> length hdr"
  shows "parseHologlyphHeader (hdr @ payload) = parseHologlyphHeader hdr"
proof -
  have n: "(hdr @ payload) ! k = hdr ! k" if "k < 28" for k
    using assms that by (simp add: nth_append)
  show ?thesis
    using assms by (simp add: parseHologlyphHeader_def getUint32_def Let_def n)
qed

section \<open>Playback\<close>


lemma advanceFrame_keeps:
  "pl_accum (advanceFrame p) = pl_accum p"
  "pl_frameDurationMs (advanceFrame p) = pl_frameDurationMs p"
  by (simp_all add: advanceFrame_def pause_def)



lemma advance_while_never_returns:
  assumes "advance_while rnd p = Some q"
  shows "\<not> (keeps_sign rnd \<and> pl_frameDurationMs p = 0 \<and> 0 \<le> pl_accum p)"
proof (rule advance_while.raw_induct
    [where P = "\<lambda>rnd p q. \<not> (keeps_sign rnd \<and> pl_frameDurationMs p = 0 \<and> 0 \<le> pl_accum p)",
     OF _ assms])
  fix f :: "(real \<Rightarrow> real) \<Rightarrow> player \<Rightarrow> player option" and rnd x y
  assume IH: "\<And>rnd x y. f rnd x = Some y
                \<Longrightarrow> \<not> (keeps_sign rnd \<and> pl_frameDurationMs x = 0 \<and> 0 \<le> pl_accum x)"
    and body: "(if real (pl_frameDurationMs x) \<le> pl_accum x
                then f rnd (advanceFrame (x\<lparr>pl_accum := rnd (pl_accum x - real (pl_frameDurationMs x))\<rparr>))
                else Some x) = Some y"
  show "\<not> (keeps_sign rnd \<and> pl_frameDurationMs x = 0 \<and> 0 \<le> pl_accum x)"
  proof
    assume a: "keeps_sign rnd \<and> pl_frameDurationMs x = 0 \<and> 0 \<le> pl_accum x"
    let ?x' = "advanceFrame (x\<lparr>pl_accum := rnd (pl_accum x - real (pl_frameDurationMs x))\<rparr>)"
    from a body have "f rnd ?x' = Some y" by simp
    then have "\<not> (keeps_sign rnd \<and> pl_frameDurationMs ?x' = 0 \<and> 0 \<le> pl_accum ?x')" by (rule IH)
    moreover have "0 \<le> rnd (pl_accum x)" using a unfolding keeps_sign_def by blast
    ultimately show False using a by (simp add: advanceFrame_keeps)
  qed
qed







text \<open>
  The player that the constructor makes of an uncompressed file: the fields of its header,
  frame 0, nothing accumulated.
\<close>

lemma newPlayer_of_created:
  assumes "opt_compressionType opts = COMPRESSION_TYPE_NONE"
  shows "newPlayer maxLength (createHologlyphHeader opts @ payload) autoPlay voxelSize
           canvasWidth canvasHeight
       = Inr \<lparr> pl_u8 = createHologlyphHeader opts @ payload,
               pl_width = opt_width opts mod 256, pl_height = opt_height opts mod 256,
               pl_depth = opt_depth opts mod 256, pl_frameCount = opt_frameCount opts mod 2 ^ 32,
               pl_frameSizeBytes = (opt_width opts mod 256) * (opt_height opts mod 256)
                  * (opt_depth opts mod 256) * (opt_bytesPerVoxel opts mod 256),
               pl_dataOffset = 28, pl_frameDurationMs = opt_frameDurationMs opts mod 2 ^ 32,
               pl_loop = opt_loop opts, pl_loopStartFrame = opt_loopStartFrame opts mod 2 ^ 32,
               pl_bytesPerVoxel = opt_bytesPerVoxel opts mod 256, pl_voxelSize = voxelSize,
               pl_canvasWidth = canvasWidth, pl_canvasHeight = canvasHeight,
               pl_currentFrame = 0, pl_playing = autoPlay, pl_lastTs = 0, pl_accum = 0 \<rparr>"
proof -
  have p: "parseHologlyphHeader (createHologlyphHeader opts @ payload)
      = parseHologlyphHeader (createHologlyphHeader opts)"
    by (rule parse_append) (simp add: length_create)
  show ?thesis
    unfolding newPlayer_def p parse_create
    using assms by (cases autoPlay) (simp_all add: COMPRESSION_TYPE_NONE_def p parse_create play_def Let_def)
qed

text \<open>
  C4. With \<open>frameDurationMs = 0\<close> the loop of \<open>_loop\<close> has no exit: a playing player
  whose accumulated time is not negative never returns from a callback, whatever the
  timestamp, so no frame count bounds the advances of one tick. Of the rounding of the
  doubles this uses only that it makes no number negative that was not.
\<close>

theorem zero_duration_loop_never_returns:
  assumes "pl_playing p" "pl_frameDurationMs p = 0" "0 \<le> pl_accum p"
    and "pl_lastTs p = 0 \<or> pl_lastTs p \<le> ts" and "keeps_sign rnd"
  shows "player_loop rnd p ts = None"
proof -
  define p' where "p' = p\<lparr>pl_lastTs := ts,
      pl_accum := rnd (pl_accum p + rnd (ts - (if pl_lastTs p \<noteq> 0 then pl_lastTs p else ts)))\<rparr>"
  have eq: "player_loop rnd p ts = advance_while rnd p'"
    using assms(1) by (simp add: player_loop_def p'_def Let_def)
  have "0 \<le> ts - (if pl_lastTs p \<noteq> 0 then pl_lastTs p else ts)"
    using assms(4) by auto
  then have "0 \<le> rnd (ts - (if pl_lastTs p \<noteq> 0 then pl_lastTs p else ts))"
    using assms(5) unfolding keeps_sign_def by blast
  then have "0 \<le> pl_accum p + rnd (ts - (if pl_lastTs p \<noteq> 0 then pl_lastTs p else ts))"
    using assms(3) by simp
  then have "0 \<le> pl_accum p'"
    using assms(5) unfolding keeps_sign_def p'_def by simp
  then have "keeps_sign rnd \<and> pl_frameDurationMs p' = 0 \<and> 0 \<le> pl_accum p'"
    using assms(2,5) by (simp add: p'_def)
  then have ne: "advance_while rnd p' \<noteq> Some q" for q
    using advance_while_never_returns [of rnd p' q] by blast
  have "advance_while rnd p' = None"
  proof (cases "advance_while rnd p'")
    case None
    then show ?thesis .
  next
    case (Some a)
    with ne [of a] show ?thesis by simp
  qed
  with eq show ?thesis by simp
qed

theorem zero_duration_loop_never_returns_witness:
  "\<exists>p. newPlayer MAX_SAFE_INTEGER
            (createHologlyphHeader zero_duration_options @ [0, 255, 255, 0, 10, 255, 255, 255])
            True 8 100 100 = Inr p
       \<and> pl_playing p \<and> pl_frameDurationMs p = 0 \<and> 0 \<le> pl_accum p \<and> pl_lastTs p = 0
       \<and> keeps_sign (\<lambda>x. x)
       \<and> player_loop (\<lambda>x. x) p 16 = None"
proof -
  have n: "opt_compressionType zero_duration_options = COMPRESSION_TYPE_NONE"
    by (simp add: zero_duration_options_def small_grid_options_def default_options_def)
  note np = newPlayer_of_created
    [OF n, of MAX_SAFE_INTEGER "[0, 255, 255, 0, 10, 255, 255, 255]" True 8 100 100]
  obtain p where p: "newPlayer MAX_SAFE_INTEGER (createHologlyphHeader zero_duration_options
        @ [0, 255, 255, 0, 10, 255, 255, 255]) True 8 100 100 = Inr p"
    and f: "pl_playing p" "pl_frameDurationMs p = 0" "pl_accum p = 0" "pl_lastTs p = 0"
    using np by (simp add: zero_duration_options_def small_grid_options_def default_options_def)
  have k: "keeps_sign (\<lambda>x. x)" by (simp add: keeps_sign_def)
  have "player_loop (\<lambda>x. x) p 16 = None"
    using f k by (intro zero_duration_loop_never_returns) simp_all
  with p f k show ?thesis by auto
qed

section \<open>Run-length compression\<close>


lemma write_run_ok:
  "buffer_ok expectedLength st \<Longrightarrow> buffer_ok expectedLength (write_run n h s b a expectedLength st)"
proof (induction n arbitrary: st)
  case 0
  then show ?case by simp
next
  case (Suc n)
  obtain decompressed writePos where st: "st = (decompressed, writePos)" by (cases st)
  show ?case
  proof (cases "writePos + 4 > expectedLength")
    case True
    then show ?thesis using Suc.prems by (simp add: st)
  next
    case False
    have "buffer_ok expectedLength
        (decompressed[writePos := h, writePos + 1 := s, writePos + 2 := b, writePos + 3 := a],
         writePos + 4)"
      using Suc.prems False by (simp add: buffer_ok_def st)
    then show ?thesis using False by (simp add: st Suc.IH)
  qed
qed

lemma decompress_loop_ok:
  "buffer_ok expectedLength st \<Longrightarrow>
   buffer_ok expectedLength (decompress_loop compressedData expectedLength readPos st)"
proof (induction compressedData expectedLength readPos st rule: decompress_loop.induct)
  case (1 compressedData expectedLength readPos decompressed writePos)
  show ?case
  proof (cases "readPos < length compressedData \<and> writePos < expectedLength")
    case True
    then show ?thesis
      using "1.IH" [OF True refl refl refl refl refl] "1.prems"
      by (subst decompress_loop.simps) (simp add: Let_def write_run_ok)
  next
    case False
    then show ?thesis using "1.prems" by (subst decompress_loop.simps) auto
  qed
qed

lemma decompressRLE_run_allocated:
  assumes "allocatable maxLength expectedLength"
  shows "decompressRLE_run maxLength compressedData expectedLength
       = Inr (decompress_loop compressedData expectedLength 0 (replicate expectedLength 0, 0))"
  using assms by (simp add: decompressRLE_run_def)

lemma decompressRLE_run_ok:
  assumes "allocatable maxLength expectedLength"
  shows "\<exists>decompressed writePos.
           decompressRLE_run maxLength compressedData expectedLength = Inr (decompressed, writePos)
         \<and> buffer_ok expectedLength (decompressed, writePos)"
proof -
  obtain decompressed writePos where
    r: "decompress_loop compressedData expectedLength 0 (replicate expectedLength 0, 0)
        = (decompressed, writePos)"
    by (cases "decompress_loop compressedData expectedLength 0 (replicate expectedLength 0, 0)")
  have "buffer_ok expectedLength (replicate expectedLength 0, 0)" by (simp add: buffer_ok_def)
  then have "buffer_ok expectedLength (decompressed, writePos)"
    using decompress_loop_ok [of expectedLength "(replicate expectedLength 0, 0)" compressedData 0]
    by (simp add: r)
  then show ?thesis using decompressRLE_run_allocated [OF assms, of compressedData] r by simp
qed




lemma count_run_spec:
  assumes "count_run voxelData h s b a count j = (count', j')"
  shows "count \<le> count' \<and> j' = j + 4 * (count' - count)
       \<and> (count \<le> MAX_RLE_RUN \<longrightarrow> count' \<le> MAX_RLE_RUN)
       \<and> (\<forall>k < count' - count.
             elemAt voxelData (j + 4 * k) = h \<and> elemAt voxelData (j + 4 * k + 1) = s
             \<and> elemAt voxelData (j + 4 * k + 2) = b \<and> elemAt voxelData (j + 4 * k + 3) = a)
       \<and> (j \<le> length voxelData \<longrightarrow> j mod 4 = 0 \<longrightarrow> length voxelData mod 4 = 0
            \<longrightarrow> j' \<le> length voxelData)"
  using assms
proof (induction voxelData h s b a count j arbitrary: count' j' rule: count_run.induct)
  case (1 voxelData h s b a count j)
  show ?case
  proof (cases "j < length voxelData \<and> count < MAX_RLE_RUN
      \<and> elemAt voxelData j = h \<and> elemAt voxelData (j + 1) = s
      \<and> elemAt voxelData (j + 2) = b \<and> elemAt voxelData (j + 3) = a")
    case True
    have rec: "count_run voxelData h s b a (count + 1) (j + 4) = (count', j')"
      using True "1.prems" by (subst (asm) count_run.simps) simp
    have IH: "count + 1 \<le> count' \<and> j' = j + 4 + 4 * (count' - (count + 1))
       \<and> (count + 1 \<le> MAX_RLE_RUN \<longrightarrow> count' \<le> MAX_RLE_RUN)
       \<and> (\<forall>k < count' - (count + 1).
             elemAt voxelData (j + 4 + 4 * k) = h \<and> elemAt voxelData (j + 4 + 4 * k + 1) = s
             \<and> elemAt voxelData (j + 4 + 4 * k + 2) = b \<and> elemAt voxelData (j + 4 + 4 * k + 3) = a)
       \<and> (j + 4 \<le> length voxelData \<longrightarrow> (j + 4) mod 4 = 0 \<longrightarrow> length voxelData mod 4 = 0
            \<longrightarrow> j' \<le> length voxelData)"
    proof -
      from True have t1: "j < length voxelData \<and> count < MAX_RLE_RUN"
        and t2: "elemAt voxelData j = h \<and> elemAt voxelData (j + 1) = s
                 \<and> elemAt voxelData (j + 2) = b \<and> elemAt voxelData (j + 3) = a"
        by simp_all
      show ?thesis by (rule "1.IH" [OF t1 t2 rec])
    qed
    from IH have i1: "count + 1 \<le> count'" by (elim conjE)
    from IH have i2: "j' = j + 4 + 4 * (count' - (count + 1))" by (elim conjE)
    from IH have i3: "count + 1 \<le> MAX_RLE_RUN \<longrightarrow> count' \<le> MAX_RLE_RUN" by (elim conjE)
    from IH have i4: "\<forall>k < count' - (count + 1).
             elemAt voxelData (j + 4 + 4 * k) = h \<and> elemAt voxelData (j + 4 + 4 * k + 1) = s
             \<and> elemAt voxelData (j + 4 + 4 * k + 2) = b \<and> elemAt voxelData (j + 4 + 4 * k + 3) = a"
      by (elim conjE)
    from IH have i5: "j + 4 \<le> length voxelData \<longrightarrow> (j + 4) mod 4 = 0
        \<longrightarrow> length voxelData mod 4 = 0 \<longrightarrow> j' \<le> length voxelData" by (elim conjE)
    have c1: "count \<le> count'" using i1 by simp
    have c2: "j' = j + 4 * (count' - count)" using i1 i2 by simp
    have c3: "count \<le> MAX_RLE_RUN \<longrightarrow> count' \<le> MAX_RLE_RUN" using i3 True by simp
    have c4: "elemAt voxelData (j + 4 * k) = h \<and> elemAt voxelData (j + 4 * k + 1) = s
             \<and> elemAt voxelData (j + 4 * k + 2) = b \<and> elemAt voxelData (j + 4 * k + 3) = a"
      if "k < count' - count" for k
    proof (cases k)
      case 0
      then show ?thesis using True by simp
    next
      case (Suc k')
      then have "k' < count' - (count + 1)" using that by simp
      then have "elemAt voxelData (j + 4 + 4 * k') = h \<and> elemAt voxelData (j + 4 + 4 * k' + 1) = s
             \<and> elemAt voxelData (j + 4 + 4 * k' + 2) = b \<and> elemAt voxelData (j + 4 + 4 * k' + 3) = a"
        using i4 by simp
      moreover have "j + 4 * k = j + 4 + 4 * k'" using Suc by simp
      ultimately show ?thesis by (simp only:)
    qed
    have c5: "j' \<le> length voxelData"
      if "j \<le> length voxelData" "j mod 4 = 0" "length voxelData mod 4 = 0"
    proof -
      have "j < length voxelData" using True by simp
      then have "j + 4 \<le> length voxelData" using that by presburger
      moreover have "(j + 4) mod 4 = 0" using that by presburger
      ultimately show ?thesis using i5 that by simp
    qed
    show ?thesis
    proof (intro conjI allI impI)
      show "count \<le> count'" by (rule c1)
      show "j' = j + 4 * (count' - count)" by (rule c2)
      show "count' \<le> MAX_RLE_RUN" if "count \<le> MAX_RLE_RUN" using c3 that by simp
      show "elemAt voxelData (j + 4 * k) = h" if "k < count' - count" for k using c4 [OF that] by simp
      show "elemAt voxelData (j + 4 * k + 1) = s" if "k < count' - count" for k using c4 [OF that] by simp
      show "elemAt voxelData (j + 4 * k + 2) = b" if "k < count' - count" for k using c4 [OF that] by simp
      show "elemAt voxelData (j + 4 * k + 3) = a" if "k < count' - count" for k using c4 [OF that] by simp
      show "j' \<le> length voxelData"
        if "j \<le> length voxelData" "j mod 4 = 0" "length voxelData mod 4 = 0"
        using that by (rule c5)
    qed
  next
    case False
    then have "count_run voxelData h s b a count j = (count, j)"
      by (subst count_run.simps) auto
    then show ?thesis using "1.prems" by simp
  qed
qed



lemma write_run_spec:
  assumes "writePos + 4 * n \<le> expectedLength" "length decompressed = expectedLength"
  shows "snd (write_run n h s b a expectedLength (decompressed, writePos)) = writePos + 4 * n
       \<and> length (fst (write_run n h s b a expectedLength (decompressed, writePos))) = expectedLength
       \<and> (\<forall>m < writePos. fst (write_run n h s b a expectedLength (decompressed, writePos)) ! m
              = decompressed ! m)
       \<and> (\<forall>k < n.
            fst (write_run n h s b a expectedLength (decompressed, writePos)) ! (writePos + 4 * k) = h
          \<and> fst (write_run n h s b a expectedLength (decompressed, writePos)) ! (writePos + 4 * k + 1) = s
          \<and> fst (write_run n h s b a expectedLength (decompressed, writePos)) ! (writePos + 4 * k + 2) = b
          \<and> fst (write_run n h s b a expectedLength (decompressed, writePos)) ! (writePos + 4 * k + 3) = a)"
  using assms
proof (induction n arbitrary: decompressed writePos)
  case 0
  then show ?case by simp
next
  case (Suc n)
  define d1 where "d1 = decompressed[writePos := h, writePos + 1 := s, writePos + 2 := b, writePos + 3 := a]"
  define res where "res = fst (write_run n h s b a expectedLength (d1, writePos + 4))"
  have fits: "\<not> writePos + 4 > expectedLength" using Suc.prems by simp
  have step: "write_run (Suc n) h s b a expectedLength (decompressed, writePos)
      = write_run n h s b a expectedLength (d1, writePos + 4)"
    using fits by (simp add: d1_def)
  have len1: "length d1 = expectedLength" using Suc.prems by (simp add: d1_def)
  have "writePos + 4 + 4 * n \<le> expectedLength" using Suc.prems by simp
  note IH = Suc.IH [OF this len1]
  from IH have i1: "snd (write_run n h s b a expectedLength (d1, writePos + 4)) = writePos + 4 + 4 * n"
    by (elim conjE)
  from IH have i2: "length res = expectedLength" unfolding res_def by (elim conjE)
  from IH have i3: "\<forall>m < writePos + 4. res ! m = d1 ! m" unfolding res_def by (elim conjE)
  from IH have i4: "\<forall>k < n. res ! (writePos + 4 + 4 * k) = h \<and> res ! (writePos + 4 + 4 * k + 1) = s
      \<and> res ! (writePos + 4 + 4 * k + 2) = b \<and> res ! (writePos + 4 + 4 * k + 3) = a"
    unfolding res_def by (elim conjE)
  have in_range: "writePos + 3 < length decompressed" using Suc.prems by simp
  have d1_old: "d1 ! m = decompressed ! m" if "m < writePos" for m
    using that by (simp add: d1_def)
  have d1_new: "d1 ! writePos = h" "d1 ! (writePos + 1) = s" "d1 ! (writePos + 2) = b"
    "d1 ! (writePos + 3) = a"
    using in_range by (simp_all add: d1_def)
  have c3: "res ! m = decompressed ! m" if "m < writePos" for m
    using i3 d1_old that by simp
  have c4: "res ! (writePos + 4 * k) = h \<and> res ! (writePos + 4 * k + 1) = s
      \<and> res ! (writePos + 4 * k + 2) = b \<and> res ! (writePos + 4 * k + 3) = a"
    if "k < Suc n" for k
  proof (cases k)
    case 0
    then show ?thesis using i3 d1_new by simp
  next
    case (Suc k')
    then have "k' < n" using that by simp
    then have "res ! (writePos + 4 + 4 * k') = h \<and> res ! (writePos + 4 + 4 * k' + 1) = s
      \<and> res ! (writePos + 4 + 4 * k' + 2) = b \<and> res ! (writePos + 4 + 4 * k' + 3) = a"
      using i4 by simp
    moreover have "writePos + 4 * k = writePos + 4 + 4 * k'" using Suc by simp
    ultimately show ?thesis by (simp only:)
  qed
  show ?case
    unfolding step res_def [symmetric]
  proof (intro conjI allI impI)
    show "snd (write_run n h s b a expectedLength (d1, writePos + 4)) = writePos + 4 * Suc n"
      using i1 by simp
    show "length res = expectedLength" by (rule i2)
    show "res ! m = decompressed ! m" if "m < writePos" for m using that by (rule c3)
    show "res ! (writePos + 4 * k) = h" if "k < Suc n" for k using c4 [OF that] by simp
    show "res ! (writePos + 4 * k + 1) = s" if "k < Suc n" for k using c4 [OF that] by simp
    show "res ! (writePos + 4 * k + 2) = b" if "k < Suc n" for k using c4 [OF that] by simp
    show "res ! (writePos + 4 * k + 3) = a" if "k < Suc n" for k using c4 [OF that] by simp
  qed
qed

lemma compress_loop_append_all:
  "\<forall>acc. compress_loop voxelData i acc = acc @ compress_loop voxelData i []"
proof (rule compress_loop.induct
    [where P = "\<lambda>voxelData i compressed.
                  \<forall>acc. compress_loop voxelData i acc = acc @ compress_loop voxelData i []"
       and ?a0.0 = voxelData and ?a1.0 = i and ?a2.0 = "[]"])
  fix voxelData :: "byte list" and i :: nat and compressed :: "byte list"
  assume step: "\<And>h s b a r. i < length voxelData \<Longrightarrow> h = elemAt voxelData i \<Longrightarrow>
      s = elemAt voxelData (i + 1) \<Longrightarrow> b = elemAt voxelData (i + 2) \<Longrightarrow>
      a = elemAt voxelData (i + 3) \<Longrightarrow> r = count_run voxelData h s b a 1 (i + 4) \<Longrightarrow>
      \<forall>acc. compress_loop voxelData (snd r) acc = acc @ compress_loop voxelData (snd r) []"
  show "\<forall>acc. compress_loop voxelData i acc = acc @ compress_loop voxelData i []"
  proof (cases "i < length voxelData")
    case True
    define r where "r = count_run voxelData (elemAt voxelData i) (elemAt voxelData (i + 1))
        (elemAt voxelData (i + 2)) (elemAt voxelData (i + 3)) 1 (i + 4)"
    define run where "run = [of_nat (fst r), toUint8 (elemAt voxelData i),
        toUint8 (elemAt voxelData (i + 1)), toUint8 (elemAt voxelData (i + 2)),
        toUint8 (elemAt voxelData (i + 3)) :: byte]"
    have u: "compress_loop voxelData i acc = compress_loop voxelData (snd r) (acc @ run)" for acc
      using True by (subst compress_loop.simps) (simp add: Let_def r_def run_def)
    have IH: "compress_loop voxelData (snd r) acc = acc @ compress_loop voxelData (snd r) []" for acc
      using step [OF True refl refl refl refl r_def] by (rule spec)
    show ?thesis
    proof
      fix acc
      have "compress_loop voxelData i acc = (acc @ run) @ compress_loop voxelData (snd r) []"
        unfolding u by (rule IH)
      also have "\<dots> = acc @ compress_loop voxelData (snd r) ([] @ run)"
        using IH [of "[] @ run"] by simp
      also have "\<dots> = acc @ compress_loop voxelData i []"
        unfolding u [of "[]"] by simp
      finally show "compress_loop voxelData i acc = acc @ compress_loop voxelData i []" .
    qed
  next
    case False
    then show ?thesis by (subst (1 2) compress_loop.simps) simp
  qed
qed

lemma compress_loop_append:
  "compress_loop voxelData i acc = acc @ compress_loop voxelData i []"
  using compress_loop_append_all [of voxelData i] by (rule spec)

lemma compress_loop_step:
  assumes "i < length voxelData"
    and "r = count_run voxelData (elemAt voxelData i) (elemAt voxelData (i + 1))
            (elemAt voxelData (i + 2)) (elemAt voxelData (i + 3)) 1 (i + 4)"
  shows "compress_loop voxelData i []
       = [of_nat (fst r), toUint8 (elemAt voxelData i), toUint8 (elemAt voxelData (i + 1)),
          toUint8 (elemAt voxelData (i + 2)), toUint8 (elemAt voxelData (i + 3))]
         @ compress_loop voxelData (snd r) []"
proof -
  have "compress_loop voxelData i []
      = compress_loop voxelData (snd r)
          ([] @ [of_nat (fst r), toUint8 (elemAt voxelData i), toUint8 (elemAt voxelData (i + 1)),
                 toUint8 (elemAt voxelData (i + 2)), toUint8 (elemAt voxelData (i + 3))])"
    using assms(1) by (subst compress_loop.simps) (simp add: Let_def assms(2))
  also have "\<dots> = ([] @ [of_nat (fst r), toUint8 (elemAt voxelData i), toUint8 (elemAt voxelData (i + 1)),
                 toUint8 (elemAt voxelData (i + 2)), toUint8 (elemAt voxelData (i + 3))])
                @ compress_loop voxelData (snd r) []"
    by (rule compress_loop_append)
  finally show ?thesis by simp
qed

lemma compress_loop_done:
  assumes "\<not> i < length voxelData"
  shows "compress_loop voxelData i [] = []"
  using assms by (subst compress_loop.simps) simp

lemma decompress_loop_shift:
  "decompress_loop (pre @ compressedData) expectedLength (length pre + readPos) st
   = decompress_loop compressedData expectedLength readPos st"
proof (induction compressedData expectedLength readPos st rule: decompress_loop.induct)
  case (1 compressedData expectedLength readPos decompressed writePos)
  show ?case
  proof (cases "readPos < length compressedData \<and> writePos < expectedLength")
    case True
    have e: "elemAt (pre @ compressedData) (length pre + readPos + k) = elemAt compressedData (readPos + k)"
      for k by (simp add: elemAt_def nth_append)
    have n: "(pre @ compressedData) ! (length pre + readPos) = compressedData ! readPos"
      by (simp add: nth_append)
    have "decompress_loop (pre @ compressedData) expectedLength (length pre + readPos) (decompressed, writePos)
      = decompress_loop (pre @ compressedData) expectedLength (length pre + (readPos + 5))
          (write_run (unat (compressedData ! readPos))
             (toUint8 (elemAt compressedData (readPos + 1)))
             (toUint8 (elemAt compressedData (readPos + 2)))
             (toUint8 (elemAt compressedData (readPos + 3)))
             (toUint8 (elemAt compressedData (readPos + 4))) expectedLength (decompressed, writePos))"
      using True by (subst decompress_loop.simps) (simp add: Let_def elemAt_def nth_append add.assoc)
    also have "\<dots> = decompress_loop compressedData expectedLength (readPos + 5)
          (write_run (unat (compressedData ! readPos))
             (toUint8 (elemAt compressedData (readPos + 1)))
             (toUint8 (elemAt compressedData (readPos + 2)))
             (toUint8 (elemAt compressedData (readPos + 3)))
             (toUint8 (elemAt compressedData (readPos + 4))) expectedLength (decompressed, writePos))"
      by (rule "1.IH" [OF True refl refl refl refl refl])
    also have "\<dots> = decompress_loop compressedData expectedLength readPos (decompressed, writePos)"
      using True by (subst decompress_loop.simps) (simp add: Let_def)
    finally show ?thesis .
  next
    case False
    then show ?thesis by (subst (1 2) decompress_loop.simps) auto
  qed
qed



lemma unat_count: "count \<le> MAX_RLE_RUN \<Longrightarrow> unat (of_nat count :: byte) = count"
  by (simp add: unat_of_nat MAX_RLE_RUN_def)

lemma decompress_loop_shift5:
  assumes "length pre = 5"
  shows "decompress_loop (pre @ compressedData) expectedLength 5 st
       = decompress_loop compressedData expectedLength 0 st"
  using decompress_loop_shift [of pre compressedData expectedLength 0 st] assms by simp

lemma decompress_loop_run:
  assumes "writePos < expectedLength" "count \<le> MAX_RLE_RUN"
  shows "decompress_loop ([of_nat count, h, s, b, a] @ rest) expectedLength 0 (decompressed, writePos)
       = decompress_loop rest expectedLength 0
           (write_run count h s b a expectedLength (decompressed, writePos))"
proof -
  have "decompress_loop ([of_nat count, h, s, b, a] @ rest) expectedLength 0 (decompressed, writePos)
      = decompress_loop ([of_nat count, h, s, b, a] @ rest) expectedLength 5
          (write_run count h s b a expectedLength (decompressed, writePos))"
    using assms
    by (subst decompress_loop.simps) (simp add: Let_def elemAt_def toUint8_def unat_count)
  also have "\<dots> = decompress_loop rest expectedLength 0
          (write_run count h s b a expectedLength (decompressed, writePos))"
    by (rule decompress_loop_shift5) simp
  finally show ?thesis .
qed

lemma decompress_loop_empty:
  "decompress_loop [] expectedLength 0 st = st"
  by (cases st) (simp add: decompress_loop.simps)

lemma run_restored:
  assumes al: "length voxelData mod 4 = 0" "i mod 4 = 0" and lt: "i < length voxelData"
    and ag: "agree decompressed voxelData i"
    and r: "r = count_run voxelData (elemAt voxelData i) (elemAt voxelData (i + 1))
                 (elemAt voxelData (i + 2)) (elemAt voxelData (i + 3)) 1 (i + 4)"
  shows "fst r \<le> MAX_RLE_RUN \<and> snd r mod 4 = 0 \<and> snd r \<le> length voxelData
       \<and> (\<exists>d'. write_run (fst r) (voxelData ! i) (voxelData ! (i + 1)) (voxelData ! (i + 2))
                  (voxelData ! (i + 3)) (length voxelData) (decompressed, i) = (d', snd r)
                \<and> agree d' voxelData (snd r))"
proof -
  define c where "c = fst r"
  define j where "j = snd r"
  have i4: "i + 4 \<le> length voxelData" using al lt by presburger
  have i4m: "(i + 4) mod 4 = 0" using al by presburger
  have rr: "count_run voxelData (elemAt voxelData i) (elemAt voxelData (i + 1))
                 (elemAt voxelData (i + 2)) (elemAt voxelData (i + 3)) 1 (i + 4) = (c, j)"
    by (simp add: r c_def j_def)
  note sp = count_run_spec [OF rr]
  from sp have c1: "1 \<le> c" by (elim conjE)
  from sp have jeq: "j = i + 4 + 4 * (c - 1)" by (elim conjE)
  from sp have "1 \<le> MAX_RLE_RUN \<longrightarrow> c \<le> MAX_RLE_RUN" by (elim conjE)
  then have cmax: "c \<le> MAX_RLE_RUN" by (simp add: MAX_RLE_RUN_def)
  from sp have same: "\<forall>k < c - 1.
      elemAt voxelData (i + 4 + 4 * k) = elemAt voxelData i
      \<and> elemAt voxelData (i + 4 + 4 * k + 1) = elemAt voxelData (i + 1)
      \<and> elemAt voxelData (i + 4 + 4 * k + 2) = elemAt voxelData (i + 2)
      \<and> elemAt voxelData (i + 4 + 4 * k + 3) = elemAt voxelData (i + 3)" by (elim conjE)
  from sp have "i + 4 \<le> length voxelData \<longrightarrow> (i + 4) mod 4 = 0
      \<longrightarrow> length voxelData mod 4 = 0 \<longrightarrow> j \<le> length voxelData" by (elim conjE)
  then have jle: "j \<le> length voxelData" using i4 i4m al by simp
  have j4c: "j = i + 4 * c" using jeq c1 by simp
  have jm: "j mod 4 = 0" using j4c al by presburger
  have vox: "voxelData ! (i + 4 * k + t) = voxelData ! (i + t)" if kc: "k < c" and t4: "t < 4" for k t
  proof (cases k)
    case 0
    then show ?thesis by simp
  next
    case (Suc k')
    then have k': "k' < c - 1" using kc by simp
    have in1: "i + 4 + 4 * k' + t < length voxelData" using k' jle jeq t4 by simp
    have in2: "i + t < length voxelData" using i4 t4 by simp
    have "elemAt voxelData (i + 4 + 4 * k' + t) = elemAt voxelData (i + t)"
    proof -
      from same k' have e: "elemAt voxelData (i + 4 + 4 * k') = elemAt voxelData i
        \<and> elemAt voxelData (i + 4 + 4 * k' + 1) = elemAt voxelData (i + 1)
        \<and> elemAt voxelData (i + 4 + 4 * k' + 2) = elemAt voxelData (i + 2)
        \<and> elemAt voxelData (i + 4 + 4 * k' + 3) = elemAt voxelData (i + 3)" by simp
      consider "t = 0" | "t = 1" | "t = 2" | "t = 3" using t4 by linarith
      then show ?thesis using e by cases simp_all
    qed
    then have "voxelData ! (i + 4 + 4 * k' + t) = voxelData ! (i + t)"
      using in1 in2 by (simp add: elemAt_def)
    moreover have "i + 4 * k + t = i + 4 + 4 * k' + t" using Suc by simp
    ultimately show ?thesis by (simp only:)
  qed
  define res where "res = write_run c (voxelData ! i) (voxelData ! (i + 1)) (voxelData ! (i + 2))
                  (voxelData ! (i + 3)) (length voxelData) (decompressed, i)"
  have len: "length decompressed = length voxelData" using ag by (simp add: agree_def)
  have fits: "i + 4 * c \<le> length voxelData" using jle j4c by simp
  note ws = write_run_spec [OF fits len, of "voxelData ! i" "voxelData ! (i + 1)"
      "voxelData ! (i + 2)" "voxelData ! (i + 3)", folded res_def]
  from ws have w1: "snd res = i + 4 * c" by (elim conjE)
  from ws have w2: "length (fst res) = length voxelData" by (elim conjE)
  from ws have w3: "\<forall>m < i. fst res ! m = decompressed ! m" by (elim conjE)
  from ws have w4: "\<forall>k < c. fst res ! (i + 4 * k) = voxelData ! i
      \<and> fst res ! (i + 4 * k + 1) = voxelData ! (i + 1)
      \<and> fst res ! (i + 4 * k + 2) = voxelData ! (i + 2)
      \<and> fst res ! (i + 4 * k + 3) = voxelData ! (i + 3)" by (elim conjE)
  have new: "fst res ! m = voxelData ! m" if mj: "m < j" for m
  proof (cases "m < i")
    case True
    then show ?thesis using w3 ag by (simp add: agree_def)
  next
    case False
    define k where "k = (m - i) div 4"
    define t where "t = (m - i) mod 4"
    have m: "m = i + 4 * k + t" using False by (simp add: k_def t_def)
    have t4: "t < 4" by (simp add: t_def)
    have kc: "k < c" using mj False j4c unfolding k_def by (simp add: less_mult_imp_div_less)
    from w4 kc have e: "fst res ! (i + 4 * k) = voxelData ! i
      \<and> fst res ! (i + 4 * k + 1) = voxelData ! (i + 1)
      \<and> fst res ! (i + 4 * k + 2) = voxelData ! (i + 2)
      \<and> fst res ! (i + 4 * k + 3) = voxelData ! (i + 3)" by simp
    consider "t = 0" | "t = 1" | "t = 2" | "t = 3" using t4 by linarith
    then have "fst res ! (i + 4 * k + t) = voxelData ! (i + t)" using e by cases simp_all
    also have "\<dots> = voxelData ! (i + 4 * k + t)" using vox [OF kc t4] by simp
    finally show ?thesis by (simp only: m [symmetric])
  qed
  have "res = (fst res, j)" using w1 j4c by (simp add: prod_eq_iff)
  moreover have "agree (fst res) voxelData j" using w2 new by (simp add: agree_def)
  ultimately have "\<exists>d'. res = (d', j) \<and> agree d' voxelData j" by blast
  then show ?thesis using cmax jm jle unfolding res_def c_def j_def by simp
qed



lemma roundtrip_from:
  "length voxelData mod 4 = 0 \<longrightarrow> i mod 4 = 0 \<longrightarrow> i \<le> length voxelData \<longrightarrow>
   (\<forall>d. agree d voxelData i \<longrightarrow>
      decompress_loop (compress_loop voxelData i []) (length voxelData) 0 (d, i)
        = (voxelData, length voxelData))"
proof (rule compress_loop.induct
    [where P = "\<lambda>voxelData i compressed.
        length voxelData mod 4 = 0 \<longrightarrow> i mod 4 = 0 \<longrightarrow> i \<le> length voxelData \<longrightarrow>
        (\<forall>d. agree d voxelData i \<longrightarrow>
           decompress_loop (compress_loop voxelData i []) (length voxelData) 0 (d, i)
             = (voxelData, length voxelData))"
       and ?a0.0 = voxelData and ?a1.0 = i and ?a2.0 = "[]"])
  fix voxelData :: "byte list" and i :: nat and compressed :: "byte list"
  assume step: "\<And>h s b a r. i < length voxelData \<Longrightarrow> h = elemAt voxelData i \<Longrightarrow>
      s = elemAt voxelData (i + 1) \<Longrightarrow> b = elemAt voxelData (i + 2) \<Longrightarrow>
      a = elemAt voxelData (i + 3) \<Longrightarrow> r = count_run voxelData h s b a 1 (i + 4) \<Longrightarrow>
      length voxelData mod 4 = 0 \<longrightarrow> snd r mod 4 = 0 \<longrightarrow> snd r \<le> length voxelData \<longrightarrow>
      (\<forall>d. agree d voxelData (snd r) \<longrightarrow>
         decompress_loop (compress_loop voxelData (snd r) []) (length voxelData) 0 (d, snd r)
           = (voxelData, length voxelData))"
  show "length voxelData mod 4 = 0 \<longrightarrow> i mod 4 = 0 \<longrightarrow> i \<le> length voxelData \<longrightarrow>
        (\<forall>d. agree d voxelData i \<longrightarrow>
           decompress_loop (compress_loop voxelData i []) (length voxelData) 0 (d, i)
             = (voxelData, length voxelData))"
  proof (intro impI allI)
    fix d
    assume al: "length voxelData mod 4 = 0" "i mod 4 = 0" and le: "i \<le> length voxelData"
      and ag: "agree d voxelData i"
    show "decompress_loop (compress_loop voxelData i []) (length voxelData) 0 (d, i)
             = (voxelData, length voxelData)"
    proof (cases "i < length voxelData")
      case True
      define r where "r = count_run voxelData (elemAt voxelData i) (elemAt voxelData (i + 1))
                 (elemAt voxelData (i + 2)) (elemAt voxelData (i + 3)) 1 (i + 4)"
      have i4: "i + 4 \<le> length voxelData" using al True by presburger
      have tb: "toUint8 (elemAt voxelData i) = voxelData ! i"
        "toUint8 (elemAt voxelData (i + 1)) = voxelData ! (i + 1)"
        "toUint8 (elemAt voxelData (i + 2)) = voxelData ! (i + 2)"
        "toUint8 (elemAt voxelData (i + 3)) = voxelData ! (i + 3)"
        using i4 by (simp_all add: toUint8_def elemAt_def)
      note rs = run_restored [OF al True ag r_def]
      from rs have cmax: "fst r \<le> MAX_RLE_RUN" by (elim conjE)
      from rs have jm: "snd r mod 4 = 0" by (elim conjE)
      from rs have jle: "snd r \<le> length voxelData" by (elim conjE)
      from rs obtain d' where
        w: "write_run (fst r) (voxelData ! i) (voxelData ! (i + 1)) (voxelData ! (i + 2))
                  (voxelData ! (i + 3)) (length voxelData) (d, i) = (d', snd r)"
        and ag': "agree d' voxelData (snd r)" by (elim conjE exE)
      have "compress_loop voxelData i []
          = [of_nat (fst r), voxelData ! i, voxelData ! (i + 1), voxelData ! (i + 2), voxelData ! (i + 3)]
            @ compress_loop voxelData (snd r) []"
        using compress_loop_step [OF True r_def] by (simp only: tb)
      then have "decompress_loop (compress_loop voxelData i []) (length voxelData) 0 (d, i)
          = decompress_loop (compress_loop voxelData (snd r) []) (length voxelData) 0 (d', snd r)"
        using decompress_loop_run [OF True cmax] by (simp only: w)
      also have "\<dots> = (voxelData, length voxelData)"
        using step [OF True refl refl refl refl r_def] al(1) jm jle ag' by simp
      finally show ?thesis .
    next
      case False
      then have e: "i = length voxelData" using le by simp
      have "d = voxelData"
        using ag unfolding agree_def e by (simp add: nth_equalityI)
      then show ?thesis
        using False by (simp add: compress_loop_done decompress_loop_empty e)
    qed
  qed
qed

lemma agree_zero: "agree (replicate (length voxelData) 0) voxelData 0"
  by (simp add: agree_def)

lemma rle_roundtrip:
  assumes "length x mod 4 = 0" "allocatable maxLength (length x)"
  shows "\<exists>c. compressRLE x = Inr c \<and> decompressRLE maxLength c (length x) = Inr (x, [])"
proof (cases "length x = 0")
  case True
  then have "compressRLE x = Inr []" by (simp add: compressRLE_def)
  moreover have "allocatable maxLength 0" using assms(2) True by simp
  then have "decompressRLE maxLength [] (length x) = Inr (x, [])"
    using True
    by (simp add: decompressRLE_def decompressRLE_run_allocated decompress_loop_empty)
  ultimately show ?thesis by simp
next
  case False
  then have c: "compressRLE x = Inr (compress_loop x 0 [])"
    using assms(1) by (simp add: compressRLE_def)
  have "decompress_loop (compress_loop x 0 []) (length x) 0 (replicate (length x) 0, 0)
      = (x, length x)"
    using roundtrip_from [of x 0] assms(1) agree_zero [of x] by simp
  then have "decompressRLE maxLength (compress_loop x 0 []) (length x) = Inr (x, [])"
    by (simp add: decompressRLE_def decompressRLE_run_allocated [OF assms(2)])
  with c show ?thesis by simp
qed


text \<open>
  C2. Compressing a byte sequence whose length is a positive multiple of 4 succeeds, and
  decompressing the result to that length gives the sequence back, with no mismatch
  warning. (The sequence is an array the engine holds, so it allocates its length.)
\<close>

theorem compressRLE_decompressRLE_roundtrip:
  assumes "length x mod 4 = 0" "0 < length x" "allocatable maxLength (length x)"
  shows "\<exists>c. compressRLE x = Inr c \<and> decompressRLE maxLength c (length x) = Inr (x, [])"
  using assms(1,3) by (rule rle_roundtrip)

theorem compressRLE_decompressRLE_roundtrip_witness:
  "length [1, 2, 3, 4, 1, 2, 3, 4, 5, 6, 7, 8 :: byte] mod 4 = 0
   \<and> 0 < length [1, 2, 3, 4, 1, 2, 3, 4, 5, 6, 7, 8 :: byte]
   \<and> allocatable MAX_SAFE_INTEGER (length [1, 2, 3, 4, 1, 2, 3, 4, 5, 6, 7, 8 :: byte])
   \<and> compressRLE [1, 2, 3, 4, 1, 2, 3, 4, 5, 6, 7, 8] = Inr [2, 1, 2, 3, 4, 1, 5, 6, 7, 8]
   \<and> decompressRLE MAX_SAFE_INTEGER [2, 1, 2, 3, 4, 1, 5, 6, 7, 8] 12
       = Inr ([1, 2, 3, 4, 1, 2, 3, 4, 5, 6, 7, 8], [])"
proof -
  have c: "compressRLE [1, 2, 3, 4, 1, 2, 3, 4, 5, 6, 7, 8] = Inr [2, 1, 2, 3, 4, 1, 5, 6, 7, 8]"
    by code_simp
  have l: "length [1, 2, 3, 4, 1, 2, 3, 4, 5, 6, 7, 8 :: byte] = 12" by simp
  have a: "allocatable MAX_SAFE_INTEGER (length [1, 2, 3, 4, 1, 2, 3, 4, 5, 6, 7, 8 :: byte])"
    by (simp add: allocatable_def MAX_SAFE_INTEGER_def)
  show ?thesis
    using compressRLE_decompressRLE_roundtrip
      [of "[1, 2, 3, 4, 1, 2, 3, 4, 5, 6, 7, 8]" MAX_SAFE_INTEGER, OF _ _ a, unfolded l] a
    by (simp add: c)
qed

text \<open>
  What \<open>decompressRLE\<close> leaves in its buffer, in terms of the decoded runs.
\<close>

lemma elemAt_drop: "elemAt (drop n xs) k = elemAt xs (n + k)"
  by (auto simp add: elemAt_def)

lemma decoded_runs_drop:
  assumes "readPos < length compressedData"
  shows "decoded_runs (drop readPos compressedData)
       = concat (replicate (unat (compressedData ! readPos))
           [toUint8 (elemAt compressedData (readPos + 1)),
            toUint8 (elemAt compressedData (readPos + 2)),
            toUint8 (elemAt compressedData (readPos + 3)),
            toUint8 (elemAt compressedData (readPos + 4))])
         @ decoded_runs (drop (readPos + 5) compressedData)"
proof -
  have step: "drop readPos compressedData
      = compressedData ! readPos # drop (Suc readPos) compressedData"
    using assms by (simp add: Cons_nth_drop_Suc)
  have e: "elemAt (drop (Suc readPos) compressedData) k = elemAt compressedData (readPos + (k + 1))"
    for k by (simp add: elemAt_drop)
  have d: "drop 4 (drop (Suc readPos) compressedData) = drop (readPos + 5) compressedData"
    by (simp add: add.commute)
  show ?thesis unfolding step decoded_runs.simps e d by simp
qed

lemma div4_diff:
  fixes m c :: nat
  shows "(m - 4 * c) div 4 = m div 4 - c"
proof (cases "4 * c \<le> m")
  case True
  define k where "k = m - 4 * c"
  have "m = k + 4 * c" using True by (simp add: k_def)
  then show ?thesis by simp
next
  case False
  then have "m < c * 4" by simp
  then have "m div 4 < c" by (simp add: div_less_iff_less_mult)
  then show ?thesis using False by simp
qed

lemma min_shift:
  fixes a l q :: nat
  shows "a \<le> q \<Longrightarrow> min (a + l) q = a + min l (q - a)"
  by arith

lemma take_voxel: "take (4 + n) (h # s # b # a # xs) = h # s # b # a # take n xs"
proof -
  have "4 + n = Suc (Suc (Suc (Suc n)))" by simp
  then show ?thesis by (simp only: take_Suc_Cons)
qed

lemma length_run: "length (concat (replicate n [h, s, b, a])) = 4 * n"
  by (induction n) simp_all

lemma take_written:
  assumes "writePos + 4 \<le> length decompressed"
  shows "take (writePos + 4)
           (decompressed[writePos := h, writePos + 1 := s, writePos + 2 := b, writePos + 3 := a])
       = take writePos decompressed @ [h, s, b, a]"
proof (rule nth_equalityI)
  show "length (take (writePos + 4)
           (decompressed[writePos := h, writePos + 1 := s, writePos + 2 := b, writePos + 3 := a]))
      = length (take writePos decompressed @ [h, s, b, a])"
    using assms by simp
next
  fix i
  assume "i < length (take (writePos + 4)
           (decompressed[writePos := h, writePos + 1 := s, writePos + 2 := b, writePos + 3 := a]))"
  then have i: "i < writePos + 4" by simp
  consider "i < writePos" | "i = writePos" | "i = writePos + 1" | "i = writePos + 2"
    | "i = writePos + 3"
    using i by linarith
  then show "take (writePos + 4)
           (decompressed[writePos := h, writePos + 1 := s, writePos + 2 := b, writePos + 3 := a]) ! i
      = (take writePos decompressed @ [h, s, b, a]) ! i"
    using assms by cases (simp_all add: nth_append)
qed

text \<open>What the \<open>for\<close> loop writes: the voxels of the run that still fit.\<close>

lemma write_run_decoded:
  assumes "buffer_ok expectedLength (decompressed, writePos)"
    and "n = min (4 * count) (4 * ((expectedLength - writePos) div 4))"
  shows "write_run count h s b a expectedLength (decompressed, writePos)
       = (take writePos decompressed @ take n (concat (replicate count [h, s, b, a]))
            @ replicate (expectedLength - writePos - n) 0,
          writePos + n)"
  using assms
proof (induction count arbitrary: decompressed writePos n)
  case 0
  have len: "length decompressed = expectedLength" and le: "writePos \<le> expectedLength"
    and z: "\<forall>i. writePos \<le> i \<and> i < expectedLength \<longrightarrow> decompressed ! i = 0"
    using "0.prems"(1) by (simp_all add: buffer_ok_def)
  have "decompressed = take writePos decompressed @ replicate (expectedLength - writePos) 0"
    using len le z by (intro nth_equalityI) (auto simp add: nth_append)
  then show ?case using "0.prems"(2) by simp
next
  case (Suc count)
  have len: "length decompressed = expectedLength" and le: "writePos \<le> expectedLength"
    and z: "\<forall>i. writePos \<le> i \<and> i < expectedLength \<longrightarrow> decompressed ! i = 0"
    using Suc.prems(1) by (simp_all add: buffer_ok_def)
  show ?case
  proof (cases "writePos + 4 > expectedLength")
    case True
    then have "(expectedLength - writePos) div 4 = 0" by simp
    then have n0: "n = 0" using Suc.prems(2) by simp
    have "decompressed = take writePos decompressed @ replicate (expectedLength - writePos) 0"
      using len le z by (intro nth_equalityI) (auto simp add: nth_append)
    then show ?thesis using True n0 by simp
  next
    case False
    define d' where
      "d' = decompressed[writePos := h, writePos + 1 := s, writePos + 2 := b, writePos + 3 := a]"
    define n' where "n' = min (4 * count) (4 * ((expectedLength - (writePos + 4)) div 4))"
    have ok': "buffer_ok expectedLength (d', writePos + 4)"
      using Suc.prems(1) False by (simp add: buffer_ok_def d'_def)
    have IH: "write_run count h s b a expectedLength (d', writePos + 4)
        = (take (writePos + 4) d' @ take n' (concat (replicate count [h, s, b, a]))
             @ replicate (expectedLength - (writePos + 4) - n') 0,
           writePos + 4 + n')"
      using ok' n'_def by (rule Suc.IH)
    have tk: "take (writePos + 4) d' = take writePos decompressed @ [h, s, b, a]"
      unfolding d'_def using False len by (intro take_written) simp
    have "(expectedLength - writePos) div 4 = Suc ((expectedLength - (writePos + 4)) div 4)"
      using False le_div_geq [of 4 "expectedLength - writePos"] by simp
    then have n: "n = 4 + n'" using Suc.prems(2) by (simp add: n'_def min_def)
    have eq: "write_run (Suc count) h s b a expectedLength (decompressed, writePos)
        = write_run count h s b a expectedLength (d', writePos + 4)"
      using False by (simp add: d'_def)
    have "expectedLength - (writePos + 4) - n' = expectedLength - writePos - (4 + n')" by simp
    then show ?thesis unfolding eq IH tk n by (simp add: take_voxel add.assoc)
  qed
qed

text \<open>What the \<open>while\<close> loop writes from \<open>readPos\<close> on: the runs that follow, up to the
  last whole voxel that fits.\<close>

lemma decompress_loop_decoded:
  assumes "buffer_ok expectedLength (decompressed, writePos)"
    and "n = min (length (decoded_runs (drop readPos compressedData)))
                 (4 * ((expectedLength - writePos) div 4))"
  shows "decompress_loop compressedData expectedLength readPos (decompressed, writePos)
       = (take writePos decompressed @ take n (decoded_runs (drop readPos compressedData))
            @ replicate (expectedLength - writePos - n) 0,
          writePos + n)"
  using assms
proof (induction compressedData expectedLength readPos "(decompressed, writePos)"
    arbitrary: decompressed writePos n rule: decompress_loop.induct)
  case (1 compressedData expectedLength readPos decompressed writePos)
  have len: "length decompressed = expectedLength" and le: "writePos \<le> expectedLength"
    and z: "\<forall>i. writePos \<le> i \<and> i < expectedLength \<longrightarrow> decompressed ! i = 0"
    using "1.prems"(1) by (simp_all add: buffer_ok_def)
  have same: "decompressed = take writePos decompressed @ replicate (expectedLength - writePos) 0"
    using len le z by (intro nth_equalityI) (auto simp add: nth_append)
  show ?case
  proof (cases "readPos < length compressedData \<and> writePos < expectedLength")
    case False
    then have "n = 0"
      using "1.prems"(2) le by auto
    moreover have "decompress_loop compressedData expectedLength readPos (decompressed, writePos)
        = (decompressed, writePos)"
      using False by (subst decompress_loop.simps) auto
    ultimately show ?thesis using same by simp
  next
    case True
    define count where "count = unat (compressedData ! readPos)"
    define h where "h = toUint8 (elemAt compressedData (readPos + 1))"
    define s where "s = toUint8 (elemAt compressedData (readPos + 2))"
    define b where "b = toUint8 (elemAt compressedData (readPos + 3))"
    define a where "a = toUint8 (elemAt compressedData (readPos + 4))"
    define run where "run = concat (replicate count [h, s, b, a])"
    define rest where "rest = decoded_runs (drop (readPos + 5) compressedData)"
    define n1 where "n1 = min (4 * count) (4 * ((expectedLength - writePos) div 4))"
    define n2 where "n2 = min (length rest) (4 * ((expectedLength - (writePos + n1)) div 4))"
    define d1 where "d1 = take writePos decompressed @ take n1 run
        @ replicate (expectedLength - writePos - n1) 0"
    have lrun: "length run = 4 * count" by (simp add: run_def length_run)
    have runs: "decoded_runs (drop readPos compressedData) = run @ rest"
      using True by (simp add: decoded_runs_drop run_def rest_def count_def h_def s_def b_def a_def)
    have w: "write_run count h s b a expectedLength (decompressed, writePos) = (d1, writePos + n1)"
      unfolding d1_def run_def using "1.prems"(1) n1_def by (rule write_run_decoded)
    have ok1: "buffer_ok expectedLength (d1, writePos + n1)"
      using write_run_ok [OF "1.prems"(1), of count h s b a] by (simp add: w)
    have IH: "decompress_loop compressedData expectedLength (readPos + 5) (d1, writePos + n1)
        = (take (writePos + n1) d1 @ take n2 rest
             @ replicate (expectedLength - (writePos + n1) - n2) 0,
           writePos + n1 + n2)"
      using "1.hyps" [OF True count_def h_def s_def b_def a_def w ok1 n2_def [unfolded rest_def]]
      by (simp add: rest_def)
    have n1le: "n1 \<le> length run" by (simp add: n1_def lrun)
    have tk: "take (writePos + n1) d1 = take writePos decompressed @ take n1 run"
      using n1le le len by (simp add: d1_def)
    have split: "n = n1 + n2 \<and> take n (run @ rest) = take n1 run @ take n2 rest"
    proof (cases "4 * count \<le> 4 * ((expectedLength - writePos) div 4)")
      case True
      then have n1c: "n1 = 4 * count" by (simp add: n1_def)
      have "(expectedLength - (writePos + 4 * count)) div 4
          = (expectedLength - writePos) div 4 - count"
        using div4_diff [of "expectedLength - writePos" count] by (simp add: diff_diff_left)
      then have "4 * ((expectedLength - (writePos + 4 * count)) div 4)
          = 4 * ((expectedLength - writePos) div 4) - 4 * count"
        by (simp add: diff_mult_distrib2)
      then have "n = n1 + n2"
        using "1.prems"(2) True min_shift [of "4 * count" "4 * ((expectedLength - writePos) div 4)" "length rest"]
        unfolding runs n2_def n1c by (simp add: lrun)
      then show ?thesis by (simp add: n1c lrun)
    next
      case False
      then have n1c: "n1 = 4 * ((expectedLength - writePos) div 4)" by (simp add: n1_def)
      have "(expectedLength - (writePos + 4 * ((expectedLength - writePos) div 4))) div 4 = 0"
        using div4_diff [of "expectedLength - writePos" "(expectedLength - writePos) div 4"]
        by (simp add: diff_diff_left)
      then have n20: "n2 = 0" by (simp add: n2_def n1c)
      have "n = n1" using "1.prems"(2) False unfolding runs n1c by (simp add: lrun)
      then show ?thesis using n20 n1le by simp
    qed
    note n_eq = split [THEN conjunct1] and tk2 = split [THEN conjunct2]
    have eq: "decompress_loop compressedData expectedLength readPos (decompressed, writePos)
        = decompress_loop compressedData expectedLength (readPos + 5) (d1, writePos + n1)"
      using True w
      by (subst decompress_loop.simps) (simp add: Let_def count_def h_def s_def b_def a_def)
    have "expectedLength - (writePos + n1) - n2 = expectedLength - writePos - n"
      by (simp add: n_eq)
    then show ?thesis unfolding eq IH tk runs tk2 by (simp add: n_eq add.assoc)
  qed
qed

lemma decompressRLE_run_decoded:
  assumes "allocatable maxLength expectedLength"
    and "n = min (length (decoded_runs compressedData)) (4 * (expectedLength div 4))"
  shows "decompressRLE_run maxLength compressedData expectedLength
       = Inr (take n (decoded_runs compressedData) @ replicate (expectedLength - n) 0, n)"
proof -
  have "buffer_ok expectedLength (replicate expectedLength 0, 0)" by (simp add: buffer_ok_def)
  moreover have "n = min (length (decoded_runs (drop 0 compressedData)))
                        (4 * ((expectedLength - 0) div 4))"
    using assms(2) by simp
  ultimately have "decompress_loop compressedData expectedLength 0 (replicate expectedLength 0, 0)
      = (take 0 (replicate expectedLength 0) @ take n (decoded_runs (drop 0 compressedData))
           @ replicate (expectedLength - 0 - n) 0,
         0 + n)"
    by (rule decompress_loop_decoded)
  then show ?thesis using decompressRLE_run_allocated [OF assms(1), of compressedData] by simp
qed

text \<open>
  C10, as stated, fails: \<open>2 ^ 53\<close> is a non-negative expected length for which no engine
  allocates the buffer, so \<open>decompressRLE\<close> throws, whatever its input. A file of 33
  bytes reaches this through \<open>decompressGlyfFile\<close>: its header announces more bytes
  than that.
\<close>

theorem decompressRLE_throws_for_unallocatable_length:
  "(\<forall>maxLength. decompressRLE maxLength [] (2 ^ 53) = Inl RangeError)
   \<and> length (createHologlyphHeader huge_grid_options @ [1, 0, 0, 0, 0]) = 33
   \<and> (\<forall>maxLength. decompressGlyfFile maxLength
                        (createHologlyphHeader huge_grid_options @ [1, 0, 0, 0, 0])
                      = Inl RangeError)"
proof (intro conjI allI)
  fix maxLength
  show "decompressRLE maxLength [] (2 ^ 53) = Inl RangeError"
    by (simp add: decompressRLE_def decompressRLE_run_def allocatable_def MAX_SAFE_INTEGER_def)
next
  show "length (createHologlyphHeader huge_grid_options @ [1, 0, 0, 0, 0]) = 33"
    by (simp add: length_create)
next
  fix maxLength
  have p: "parseHologlyphHeader (createHologlyphHeader huge_grid_options @ [1, 0, 0, 0, 0])
      = parseHologlyphHeader (createHologlyphHeader huge_grid_options)"
    by (rule parse_append) (simp add: length_create)
  have r: "decompressRLE maxLength c (255 * 255 * 255 * 4 * 4294967295) = Inl RangeError" for c
    by (simp add: decompressRLE_def decompressRLE_run_def allocatable_def MAX_SAFE_INTEGER_def)
  show "decompressGlyfFile maxLength (createHologlyphHeader huge_grid_options @ [1, 0, 0, 0, 0])
      = Inl RangeError"
    unfolding decompressGlyfFile_def p parse_create
    using r [of "[1, 0, 0, 0, 0]"]
    by (simp add: huge_grid_options_def default_options_def COMPRESSION_TYPE_NONE_def
        COMPRESSION_TYPE_RLE_def length_create Let_def)
qed

text \<open>
  C10, amended. For an expected length that the engine does not allocate,
  \<open>decompressRLE\<close> throws a \<open>RangeError\<close>. For every other expected length and every
  input it returns a buffer of exactly the expected length: the buffer starts with the
  bytes of the decoded runs, as many whole voxels of them as fit, and every position
  from the final write position on is zero. (The loops are total functions, and the
  allocation is the only error of the model.)
\<close>

theorem decompressRLE_returns_expectedLength:
  "(\<not> allocatable maxLength expectedLength
      \<longrightarrow> decompressRLE maxLength compressedData expectedLength = Inl RangeError)
   \<and> (allocatable maxLength expectedLength
      \<longrightarrow> (\<exists>decompressed writePos warnings.
             decompressRLE_run maxLength compressedData expectedLength
               = Inr (decompressed, writePos)
           \<and> decompressRLE maxLength compressedData expectedLength
               = Inr (decompressed, warnings)
           \<and> length decompressed = expectedLength
           \<and> writePos = min (length (decoded_runs compressedData)) (4 * (expectedLength div 4))
           \<and> decompressed = take writePos (decoded_runs compressedData)
                              @ replicate (expectedLength - writePos) 0))"
proof (intro conjI impI)
  assume "\<not> allocatable maxLength expectedLength"
  then show "decompressRLE maxLength compressedData expectedLength = Inl RangeError"
    by (simp add: decompressRLE_def decompressRLE_run_def)
next
  assume al: "allocatable maxLength expectedLength"
  define n where "n = min (length (decoded_runs compressedData)) (4 * (expectedLength div 4))"
  define d where "d = take n (decoded_runs compressedData) @ replicate (expectedLength - n) 0"
  have r: "decompressRLE_run maxLength compressedData expectedLength = Inr (d, n)"
    unfolding d_def using al n_def by (rule decompressRLE_run_decoded)
  have "4 * (expectedLength div 4) \<le> expectedLength" by simp
  then have "n \<le> expectedLength" "n \<le> length (decoded_runs compressedData)"
    unfolding n_def by simp_all
  then have len: "length d = expectedLength" by (simp add: d_def)
  have "decompressRLE maxLength compressedData expectedLength
      = Inr (d, if n \<noteq> expectedLength then [RLEMismatch expectedLength n] else [])"
    by (simp add: decompressRLE_def r)
  then show "\<exists>decompressed writePos warnings.
             decompressRLE_run maxLength compressedData expectedLength
               = Inr (decompressed, writePos)
           \<and> decompressRLE maxLength compressedData expectedLength
               = Inr (decompressed, warnings)
           \<and> length decompressed = expectedLength
           \<and> writePos = min (length (decoded_runs compressedData)) (4 * (expectedLength div 4))
           \<and> decompressed = take writePos (decoded_runs compressedData)
                              @ replicate (expectedLength - writePos) 0"
    using r len n_def d_def by blast
qed

theorem decompressRLE_returns_expectedLength_witness:
  "allocatable MAX_SAFE_INTEGER 8 \<and> allocatable MAX_SAFE_INTEGER 4
   \<and> \<not> allocatable MAX_SAFE_INTEGER (2 ^ 53)
   \<and> decoded_runs [1, 7, 7] = [7, 7, 0, 0]
   \<and> decompressRLE_run MAX_SAFE_INTEGER [1, 7, 7] 8 = Inr ([7, 7, 0, 0, 0, 0, 0, 0], 4)
   \<and> decoded_runs [2, 7, 7, 7, 7] = [7, 7, 7, 7, 7, 7, 7, 7]
   \<and> decompressRLE_run MAX_SAFE_INTEGER [2, 7, 7, 7, 7] 4 = Inr ([7, 7, 7, 7], 4)
   \<and> decompressRLE MAX_SAFE_INTEGER [1, 7, 7] (2 ^ 53) = Inl RangeError"
proof -
  have a: "allocatable MAX_SAFE_INTEGER 8" "allocatable MAX_SAFE_INTEGER 4"
    by (simp_all add: allocatable_def MAX_SAFE_INTEGER_def)
  have na: "\<not> allocatable MAX_SAFE_INTEGER (2 ^ 53)"
    by (simp add: allocatable_def MAX_SAFE_INTEGER_def)
  have d1: "decoded_runs [1, 7, 7] = [7, 7, 0, 0]" by code_simp
  have d2: "decoded_runs [2, 7, 7, 7, 7] = [7, 7, 7, 7, 7, 7, 7, 7]" by code_simp
  have z: "replicate 4 (0 :: byte) = [0, 0, 0, 0]" by code_simp
  have t: "decompressRLE MAX_SAFE_INTEGER [1, 7, 7] (2 ^ 53) = Inl RangeError"
    using decompressRLE_returns_expectedLength [of MAX_SAFE_INTEGER "2 ^ 53" "[1, 7, 7]"] na
    by (elim conjE) (rule mp)
  show ?thesis
    using decompressRLE_returns_expectedLength [of MAX_SAFE_INTEGER 8 "[1, 7, 7]", unfolded d1]
      decompressRLE_returns_expectedLength [of MAX_SAFE_INTEGER 4 "[2, 7, 7, 7, 7]", unfolded d2]
      a na t
    by (auto simp add: d1 d2 z simp del: decoded_runs.simps)
qed

text \<open>
  C6, as stated, fails: the value \<open>decompressRLE\<close> returns after a mismatch (no input
  for 4 expected bytes) is the value it returns without one (a run of one zero voxel),
  so the result of the call does not tell them apart.
\<close>

theorem decompressRLE_mismatch_not_in_result:
  "decompressRLE MAX_SAFE_INTEGER [] 4 = Inr ([0, 0, 0, 0], [RLEMismatch 4 0])
   \<and> decompressRLE MAX_SAFE_INTEGER [1, 0, 0, 0, 0] 4 = Inr ([0, 0, 0, 0], [])"
proof -
  have a: "allocatable MAX_SAFE_INTEGER 4" by (simp add: allocatable_def MAX_SAFE_INTEGER_def)
  have r1: "decompress_loop [] 4 0 (replicate 4 0, 0) = ([0, 0, 0, 0], 0)" by code_simp
  have r2: "decompress_loop [1, 0, 0, 0, 0] 4 0 (replicate 4 0, 0) = ([0, 0, 0, 0], 4)" by code_simp
  show ?thesis
    by (simp add: decompressRLE_def decompressRLE_run_allocated [OF a] r1 r2)
qed

text \<open>
  C6, amended. For an expected length that the engine allocates, \<open>decompressRLE\<close>
  returns a buffer of the expected length. When fewer bytes were written than expected
  it writes one mismatch warning to the console, with the expected and the written
  length, and nothing otherwise; more bytes than expected are never written.
\<close>

theorem decompressRLE_mismatch_only_warns:
  assumes "allocatable maxLength expectedLength"
  shows "\<exists>decompressed writePos.
           decompressRLE_run maxLength compressedData expectedLength = Inr (decompressed, writePos)
         \<and> length decompressed = expectedLength
         \<and> decompressRLE maxLength compressedData expectedLength
             = Inr (decompressed,
                    if writePos < expectedLength then [RLEMismatch expectedLength writePos] else [])"
proof -
  obtain decompressed writePos where
    r: "decompressRLE_run maxLength compressedData expectedLength = Inr (decompressed, writePos)"
    and ok: "buffer_ok expectedLength (decompressed, writePos)"
    using decompressRLE_run_ok [OF assms] by blast
  have "length decompressed = expectedLength" "writePos \<le> expectedLength"
    using ok by (simp_all add: buffer_ok_def)
  then show ?thesis using r by (auto simp add: decompressRLE_def)
qed

theorem decompressRLE_mismatch_only_warns_witness:
  "allocatable MAX_SAFE_INTEGER 8 \<and> allocatable MAX_SAFE_INTEGER 4
   \<and> decompressRLE MAX_SAFE_INTEGER [1, 7, 7] 8
       = Inr ([7, 7, 0, 0, 0, 0, 0, 0], [RLEMismatch 8 4])
   \<and> decompressRLE MAX_SAFE_INTEGER [2, 7, 7, 7, 7] 4 = Inr ([7, 7, 7, 7], [])"
proof -
  have a: "allocatable MAX_SAFE_INTEGER 8" "allocatable MAX_SAFE_INTEGER 4"
    by (simp_all add: allocatable_def MAX_SAFE_INTEGER_def)
  have r1: "decompress_loop [1, 7, 7] 8 0 (replicate 8 0, 0) = ([7, 7, 0, 0, 0, 0, 0, 0], 4)"
    by code_simp
  have r2: "decompress_loop [2, 7, 7, 7, 7] 4 0 (replicate 4 0, 0) = ([7, 7, 7, 7], 4)"
    by code_simp
  show ?thesis
    using decompressRLE_mismatch_only_warns [OF a(1), of "[1, 7, 7]"]
      decompressRLE_mismatch_only_warns [OF a(2), of "[2, 7, 7, 7, 7]"] a
    by (simp add: decompressRLE_run_allocated r1 r2)
qed

section \<open>Whole files\<close>


lemma byte_of_nat_mod: "(of_nat (n mod 256) :: byte) = of_nat n"
  by (metis unat_byte_of_nat mod_mod_trivial word_unat_eq_iff)

lemma setUint32_mod: "setUint32 (v mod 4294967296) = setUint32 v"
  by (simp add: setUint32_def)

lemma create_of_parsed:
  "createHologlyphHeader
     \<lparr> opt_width = opt_width opts mod 256, opt_height = opt_height opts mod 256,
       opt_depth = opt_depth opts mod 256, opt_frameCount = opt_frameCount opts mod 4294967296,
       opt_frameDurationMs = opt_frameDurationMs opts mod 4294967296, opt_loop = opt_loop opts,
       opt_loopStartFrame = opt_loopStartFrame opts mod 4294967296,
       opt_bytesPerVoxel = opt_bytesPerVoxel opts mod 256,
       opt_colorModel = opt_colorModel opts mod 256, opt_compressionType = ct \<rparr>
   = createHologlyphHeader (opts\<lparr>opt_compressionType := ct\<rparr>)"
  by (simp add: create_bytes byte_of_nat_mod setUint32_mod del: One_nat_def)

lemma create_compressionType:
  "createHologlyphHeader (opts\<lparr>opt_compressionType := ct\<rparr>)
   = (createHologlyphHeader opts)[23 := of_nat ct]"
  by (simp add: create_bytes length_setUint32 list_update_append)


lemma compress_uncompressed_file:
  assumes none: "opt_compressionType opts = COMPRESSION_TYPE_NONE"
    and c: "compressRLE payload = Inr c"
  shows "compressGlyfFile (createHologlyphHeader opts @ payload)
       = Inr (createHologlyphHeader (opts\<lparr>opt_compressionType := COMPRESSION_TYPE_RLE\<rparr>) @ c)"
proof -
  have p: "parseHologlyphHeader (createHologlyphHeader opts @ payload)
      = parseHologlyphHeader (createHologlyphHeader opts)"
    by (rule parse_append) (simp add: length_create)
  show ?thesis
    unfolding compressGlyfFile_def p parse_create
    using none c
    by (simp add: COMPRESSION_TYPE_NONE_def length_create create_of_parsed Let_def)
qed

lemma decompress_compressed_file:
  assumes rle: "opt_compressionType opts = COMPRESSION_TYPE_RLE"
    and len: "n = (opt_width opts mod 256) * (opt_height opts mod 256) * (opt_depth opts mod 256)
                  * (opt_bytesPerVoxel opts mod 256) * (opt_frameCount opts mod 2 ^ 32)"
    and dec: "decompressRLE maxLength c n = Inr (decompressedVoxels, warnings)"
  shows "decompressGlyfFile maxLength (createHologlyphHeader opts @ c)
       = Inr (createHologlyphHeader (opts\<lparr>opt_compressionType := COMPRESSION_TYPE_NONE\<rparr>)
              @ decompressedVoxels)"
proof -
  have p: "parseHologlyphHeader (createHologlyphHeader opts @ c)
      = parseHologlyphHeader (createHologlyphHeader opts)"
    by (rule parse_append) (simp add: length_create)
  show ?thesis
    unfolding decompressGlyfFile_def p parse_create
    using rle len dec
    by (simp add: COMPRESSION_TYPE_NONE_def COMPRESSION_TYPE_RLE_def length_create
        create_of_parsed Let_def)
qed


text \<open>
  C1, as stated, fails: a header built with \<open>bytesPerVoxel = 1\<close> for a grid of one
  voxel and one frame, followed by the one payload byte that \<open>frameSizeBytes * frameCount\<close>
  asks for, is not compressed at all: \<open>compressRLE\<close> rejects a payload whose length is
  not a multiple of 4.
\<close>

theorem glyf_file_roundtrip_fails_for_one_byte_voxels:
  "opt_compressionType one_byte_voxel_options = COMPRESSION_TYPE_NONE
   \<and> parseHologlyphHeader (createHologlyphHeader one_byte_voxel_options @ [7])
       = Inr \<lparr> hdr_magic = ''HGLY'', hdr_version = 1, hdr_headerSize = 28, hdr_loop = True,
               hdr_loopStartFrame = 0, hdr_bytesPerVoxel = 1, hdr_width = 1, hdr_height = 1,
               hdr_depth = 1, hdr_colorModel = 0, hdr_compressionType = 0, hdr_frameCount = 1,
               hdr_frameDurationMs = 100, hdr_frameSizeBytes = 1, hdr_dataOffset = 28 \<rparr>
   \<and> compressGlyfFile (createHologlyphHeader one_byte_voxel_options @ [7]) = Inl NotMultipleOf4"
proof -
  have p: "parseHologlyphHeader (createHologlyphHeader one_byte_voxel_options @ [7])
      = parseHologlyphHeader (createHologlyphHeader one_byte_voxel_options)"
    by (rule parse_append) (simp add: length_create)
  have q: "parseHologlyphHeader (createHologlyphHeader one_byte_voxel_options)
       = Inr \<lparr> hdr_magic = ''HGLY'', hdr_version = 1, hdr_headerSize = 28, hdr_loop = True,
               hdr_loopStartFrame = 0, hdr_bytesPerVoxel = 1, hdr_width = 1, hdr_height = 1,
               hdr_depth = 1, hdr_colorModel = 0, hdr_compressionType = 0, hdr_frameCount = 1,
               hdr_frameDurationMs = 100, hdr_frameSizeBytes = 1, hdr_dataOffset = 28 \<rparr>"
    unfolding parse_create
    by (simp add: one_byte_voxel_options_def default_options_def HOLOGLYPH_MAGIC_def
        COLOR_MODEL_HSBA_255_100_def COMPRESSION_TYPE_NONE_def)
  have r: "compressRLE [7] = Inl NotMultipleOf4" by (simp add: compressRLE_def)
  have "compressGlyfFile (createHologlyphHeader one_byte_voxel_options @ [7]) = Inl NotMultipleOf4"
    unfolding compressGlyfFile_def p q
    by (simp add: COMPRESSION_TYPE_NONE_def length_create r)
  then show ?thesis
    unfolding p q
    by (simp add: one_byte_voxel_options_def default_options_def)
qed

text \<open>
  C1, amended. For a buffer made of a header built by \<open>createHologlyphHeader\<close> with
  compression type NONE and a payload of exactly \<open>frameSizeBytes * frameCount\<close> bytes,
  when that length is a multiple of 4 (as it is for four bytes per voxel): compressing
  succeeds; the compressed buffer is the same header with byte 23 set to RLE, followed
  by the run-length compressed payload; and decompressing it gives the buffer back byte
  for byte. (The payload is part of an array the engine holds, so it allocates its
  length.)
\<close>

theorem glyf_file_roundtrip:
  assumes "opt_compressionType opts = COMPRESSION_TYPE_NONE"
    and "parseHologlyphHeader (createHologlyphHeader opts @ payload) = Inr parsed"
    and "length payload = hdr_frameSizeBytes parsed * hdr_frameCount parsed"
    and "length payload mod 4 = 0"
    and "allocatable maxLength (length payload)"
  shows "\<exists>c. compressGlyfFile (createHologlyphHeader opts @ payload) = Inr c
           \<and> take 28 c = (createHologlyphHeader opts)[23 := of_nat COMPRESSION_TYPE_RLE]
           \<and> compressRLE payload = Inr (drop 28 c)
           \<and> decompressGlyfFile maxLength c = Inr (createHologlyphHeader opts @ payload)"
proof -
  define o1 where "o1 = opts\<lparr>opt_compressionType := COMPRESSION_TYPE_RLE\<rparr>"
  from rle_roundtrip [OF assms(4,5)] obtain cv where
    cv: "compressRLE payload = Inr cv"
    and restored: "decompressRLE maxLength cv (length payload) = Inr (payload, [])"
    by blast
  have c: "compressGlyfFile (createHologlyphHeader opts @ payload)
      = Inr (createHologlyphHeader o1 @ cv)"
    unfolding o1_def using assms(1) cv by (rule compress_uncompressed_file)
  have "parseHologlyphHeader (createHologlyphHeader opts @ payload)
      = parseHologlyphHeader (createHologlyphHeader opts)"
    by (rule parse_append) (simp add: length_create)
  then have "parseHologlyphHeader (createHologlyphHeader opts) = Inr parsed" using assms(2) by simp
  then have len: "length payload
      = (opt_width o1 mod 256) * (opt_height o1 mod 256) * (opt_depth o1 mod 256)
        * (opt_bytesPerVoxel o1 mod 256) * (opt_frameCount o1 mod 2 ^ 32)"
    using assms(3) unfolding parse_create by (auto simp add: o1_def)
  have "opt_compressionType o1 = COMPRESSION_TYPE_RLE" by (simp add: o1_def)
  then have "decompressGlyfFile maxLength (createHologlyphHeader o1 @ cv)
       = Inr (createHologlyphHeader (o1\<lparr>opt_compressionType := COMPRESSION_TYPE_NONE\<rparr>)
              @ payload)"
    using len restored by (rule decompress_compressed_file)
  moreover have "o1\<lparr>opt_compressionType := COMPRESSION_TYPE_NONE\<rparr> = opts"
    using assms(1) by (simp add: o1_def)
  ultimately have d: "decompressGlyfFile maxLength (createHologlyphHeader o1 @ cv)
       = Inr (createHologlyphHeader opts @ payload)"
    by simp
  have t: "take 28 (createHologlyphHeader o1 @ cv)
      = (createHologlyphHeader opts)[23 := of_nat COMPRESSION_TYPE_RLE]"
    by (simp add: o1_def length_create create_compressionType)
  have dr: "drop 28 (createHologlyphHeader o1 @ cv) = cv" by (simp add: length_create)
  show ?thesis using c t dr cv d by simp
qed

theorem glyf_file_roundtrip_witness:
  "opt_compressionType small_grid_options = COMPRESSION_TYPE_NONE
   \<and> length [1, 2, 3, 4, 1, 2, 3, 4 :: byte] mod 4 = 0
   \<and> allocatable MAX_SAFE_INTEGER (length [1, 2, 3, 4, 1, 2, 3, 4 :: byte])
   \<and> (\<exists>c. compressGlyfFile (createHologlyphHeader small_grid_options @ [1, 2, 3, 4, 1, 2, 3, 4]) = Inr c
          \<and> decompressGlyfFile MAX_SAFE_INTEGER c
              = Inr (createHologlyphHeader small_grid_options @ [1, 2, 3, 4, 1, 2, 3, 4]))"
proof -
  have p: "parseHologlyphHeader (createHologlyphHeader small_grid_options @ [1, 2, 3, 4, 1, 2, 3, 4])
      = parseHologlyphHeader (createHologlyphHeader small_grid_options)"
    by (rule parse_append) (simp add: length_create)
  have n: "opt_compressionType small_grid_options = COMPRESSION_TYPE_NONE"
    by (simp add: small_grid_options_def default_options_def)
  have a: "allocatable MAX_SAFE_INTEGER (length [1, 2, 3, 4, 1, 2, 3, 4 :: byte])"
    by (simp add: allocatable_def MAX_SAFE_INTEGER_def)
  have "\<exists>c. compressGlyfFile (createHologlyphHeader small_grid_options @ [1, 2, 3, 4, 1, 2, 3, 4]) = Inr c
          \<and> take 28 c = (createHologlyphHeader small_grid_options)[23 := of_nat COMPRESSION_TYPE_RLE]
          \<and> compressRLE [1, 2, 3, 4, 1, 2, 3, 4] = Inr (drop 28 c)
          \<and> decompressGlyfFile MAX_SAFE_INTEGER c
              = Inr (createHologlyphHeader small_grid_options @ [1, 2, 3, 4, 1, 2, 3, 4])"
    by (rule glyf_file_roundtrip [OF n p [unfolded parse_create] _ _ a])
       (simp_all add: small_grid_options_def default_options_def)
  then show ?thesis using n a by auto
qed

section \<open>Renderers\<close>


lemma fold_row:
  assumes "\<And>x st. f x st = (fst st + 1, snd st @ g x (fst st))"
  shows "fold f [0..<w] (i, out) = (i + w, out @ concat (map (\<lambda>x. g x (i + x)) [0..<w]))"
proof (induction w)
  case 0
  then show ?case by simp
next
  case (Suc w)
  then show ?case by (simp add: assms)
qed

lemma fold_plane:
  assumes "\<And>y x st. f y x st = (fst st + 1, snd st @ g y x (fst st))"
  shows "fold (\<lambda>y. fold (f y) [0..<w]) [0..<h] (i, out)
       = (i + h * w,
          out @ concat (map (\<lambda>y. concat (map (\<lambda>x. g y x (i + y * w + x)) [0..<w])) [0..<h]))"
proof (induction h)
  case 0
  then show ?case by simp
next
  case (Suc h)
  have "fold (f h) [0..<w] (i + h * w, acc)
      = (i + h * w + w, acc @ concat (map (\<lambda>x. g h x (i + h * w + x)) [0..<w]))" for acc
    by (rule fold_row) (rule assms)
  with Suc show ?case by (simp add: add.commute add.left_commute)
qed

lemma fold_grid:
  assumes "\<And>z y x st. f z y x st = (fst st + 1, snd st @ g z y x (fst st))"
  shows "fold (\<lambda>z. fold (\<lambda>y. fold (f z y) [0..<w]) [0..<h]) [0..<d] (i, out)
       = (i + d * (h * w),
          out @ concat (map (\<lambda>z. concat (map (\<lambda>y. concat (map (\<lambda>x.
                  g z y x (i + (z * h + y) * w + x)) [0..<w])) [0..<h])) [0..<d]))"
proof (induction d)
  case 0
  then show ?case by simp
next
  case (Suc d)
  have "fold (\<lambda>y. fold (f d y) [0..<w]) [0..<h] (i + d * (h * w), acc)
      = (i + d * (h * w) + h * w,
         acc @ concat (map (\<lambda>y. concat (map (\<lambda>x. g d y x (i + d * (h * w) + y * w + x)) [0..<w])) [0..<h]))"
    for acc
    by (rule fold_plane) (rule assms)
  moreover have "i + d * (h * w) + y * w + x = i + (d * h + y) * w + x" for y x
    by (simp add: algebra_simps)
  ultimately show ?case using Suc by (simp add: add.commute add.left_commute)
qed


lemma fold_grid_from_zero:
  assumes "\<And>z y x st. f z y x st = (fst st + 1, snd st @ g z y x (fst st))"
  shows "snd (fold (\<lambda>z. fold (\<lambda>y. fold (f z y) [0..<w]) [0..<h]) [0..<d] (0, []))
       = concat (map (\<lambda>z. concat (map (\<lambda>y. concat (map (\<lambda>x.
                  g z y x ((z * h + y) * w + x)) [0..<w])) [0..<h])) [0..<d])"
  using fold_grid [of f g w h d 0 "[]", OF assms] by simp

lemma voxelWebGL_step:
  "voxelWebGL p frame z y x st
   = (fst st + 1,
      snd st @ (if px_a (voxelColor p frame (fst st)) \<noteq> 0 \<and> px_b (voxelColor p frame (fst st)) \<noteq> 0
                then [cubeAt p (voxelColor p frame (fst st)) z y x] else []))"
  by (simp add: voxelWebGL_def voxelColor_def cubeAt_def Let_def)

lemma voxel2D_step:
  "voxel2D p frame z y x st
   = (fst st + 1,
      snd st @ (if px_a (voxelColor p frame (fst st)) \<noteq> 0 \<and> px_b (voxelColor p frame (fst st)) \<noteq> 0
                then [rectAt p (voxelColor p frame (fst st)) z y x] else []))"
  by (simp add: voxel2D_def voxelColor_def rectAt_def Let_def)

lemma renderWebGL_cells:
  "renderWebGL p =
     [cubeAt p (voxelColor p (getFrameBytes p) ((z * pl_height p + y) * pl_width p + x)) z y x.
        z \<leftarrow> [0..<pl_depth p], y \<leftarrow> [0..<pl_height p], x \<leftarrow> [0..<pl_width p],
        px_a (voxelColor p (getFrameBytes p) ((z * pl_height p + y) * pl_width p + x)) \<noteq> 0
        \<and> px_b (voxelColor p (getFrameBytes p) ((z * pl_height p + y) * pl_width p + x)) \<noteq> 0]"
  unfolding renderWebGL_def Let_def
  by (subst fold_grid_from_zero [where g = "\<lambda>z y x i.
        if px_a (voxelColor p (getFrameBytes p) i) \<noteq> 0 \<and> px_b (voxelColor p (getFrameBytes p) i) \<noteq> 0
        then [cubeAt p (voxelColor p (getFrameBytes p) i) z y x] else []"])
     (simp_all add: voxelWebGL_step)

lemma render2D_cells:
  "render2D p =
     [rectAt p (voxelColor p (getFrameBytes p) ((z * pl_height p + y) * pl_width p + x)) z y x.
        z \<leftarrow> [0..<pl_depth p], y \<leftarrow> [0..<pl_height p], x \<leftarrow> [0..<pl_width p],
        px_a (voxelColor p (getFrameBytes p) ((z * pl_height p + y) * pl_width p + x)) \<noteq> 0
        \<and> px_b (voxelColor p (getFrameBytes p) ((z * pl_height p + y) * pl_width p + x)) \<noteq> 0]"
  unfolding render2D_def Let_def
  by (subst fold_grid_from_zero [where g = "\<lambda>z y x i.
        if px_a (voxelColor p (getFrameBytes p) i) \<noteq> 0 \<and> px_b (voxelColor p (getFrameBytes p) i) \<noteq> 0
        then [rectAt p (voxelColor p (getFrameBytes p) i) z y x] else []"])
     (simp_all add: voxel2D_step)

text \<open>
  C9. On every player, the pass of either renderer over the current frame emits exactly
  the cells of the grid in the order Z (slowest), Y, X (fastest), each cell reading the
  voxel of index \<open>(z * height + y) * width + x\<close>, without the cells whose decoded alpha
  or decoded brightness is 0 (whatever the other is); so nothing emitted has alpha 0 or
  brightness 0. A cell that is emitted is drawn by WebGL with the translation
  \<open>(x - width / 2, y - height / 2, z - depth / 2)\<close>, and on the canvas at the
  projection of the same offsets.
\<close>

theorem render_pass_order_and_culling:
  "renderWebGL p =
     [cubeAt p (voxelColor p (getFrameBytes p) ((z * pl_height p + y) * pl_width p + x)) z y x.
        z \<leftarrow> [0..<pl_depth p], y \<leftarrow> [0..<pl_height p], x \<leftarrow> [0..<pl_width p],
        px_a (voxelColor p (getFrameBytes p) ((z * pl_height p + y) * pl_width p + x)) \<noteq> 0
        \<and> px_b (voxelColor p (getFrameBytes p) ((z * pl_height p + y) * pl_width p + x)) \<noteq> 0]
   \<and> render2D p =
     [rectAt p (voxelColor p (getFrameBytes p) ((z * pl_height p + y) * pl_width p + x)) z y x.
        z \<leftarrow> [0..<pl_depth p], y \<leftarrow> [0..<pl_height p], x \<leftarrow> [0..<pl_width p],
        px_a (voxelColor p (getFrameBytes p) ((z * pl_height p + y) * pl_width p + x)) \<noteq> 0
        \<and> px_b (voxelColor p (getFrameBytes p) ((z * pl_height p + y) * pl_width p + x)) \<noteq> 0]
   \<and> (\<forall>c \<in> set (renderWebGL p). px_a (cube_color c) \<noteq> 0 \<and> px_b (cube_color c) \<noteq> 0)
   \<and> (\<forall>r \<in> set (render2D p). px_a (rect_color r) \<noteq> 0 \<and> px_b (rect_color r) \<noteq> 0)
   \<and> cube_translation (cubeAt p c z y x)
       = (real x - real (pl_width p) / 2, real y - real (pl_height p) / 2,
          real z - real (pl_depth p) / 2)"
proof (intro conjI)
  show "cube_translation (cubeAt p c z y x)
       = (real x - real (pl_width p) / 2, real y - real (pl_height p) / 2,
          real z - real (pl_depth p) / 2)"
    by (simp add: cubeAt_def)
  show "\<forall>c \<in> set (renderWebGL p). px_a (cube_color c) \<noteq> 0 \<and> px_b (cube_color c) \<noteq> 0"
    unfolding renderWebGL_cells by (auto simp add: cubeAt_def)
  show "\<forall>r \<in> set (render2D p). px_a (rect_color r) \<noteq> 0 \<and> px_b (rect_color r) \<noteq> 0"
    unfolding render2D_cells by (auto simp add: rectAt_def)
qed (rule renderWebGL_cells render2D_cells)+


lemma example_frame:
  "getFrameBytes render_example_player = [0, 255, 255, 0, 10, 255, 255, 255]"
  by (simp add: getFrameBytes_def subarray_def render_example_player_def length_create Let_def)

lemma example_voxel0:
  "voxelColor render_example_player [0, 255, 255, 0, 10, 255, 255, 255] 0
   = \<lparr> px_h = 0, px_s = 100, px_b = 100, px_a = 0 \<rparr>"
  by (simp add: voxelColor_def subarray_def render_example_player_def decodePixel_def
      component_def byteToPercent_def clamp_def Math_round_def Let_def)

lemma example_voxel1:
  "voxelColor render_example_player [0, 255, 255, 0, 10, 255, 255, 255] (Suc 0)
   = \<lparr> px_h = 10, px_s = 100, px_b = 100, px_a = 100 \<rparr>"
  by (simp add: voxelColor_def subarray_def render_example_player_def decodePixel_def
      component_def byteToPercent_def clamp_def Math_round_def Let_def)

theorem render_pass_order_and_culling_witness:
  "renderWebGL render_example_player
     = [\<lparr> cube_color = \<lparr> px_h = 10, px_s = 100, px_b = 100, px_a = 100 \<rparr>,
          cube_translation = (- (1 / 2), - (1 / 2), 0) \<rparr>]
   \<and> \<lparr> cube_color = \<lparr> px_h = 10, px_s = 100, px_b = 100, px_a = 100 \<rparr>,
        cube_translation = (- (1 / 2), - (1 / 2), 0) \<rparr> \<in> set (renderWebGL render_example_player)
   \<and> render2D render_example_player
     = [\<lparr> rect_color = \<lparr> px_h = 10, px_s = 100, px_b = 100, px_a = 100 \<rparr>,
          rect_x = 46, rect_y = 46, rect_w = 8, rect_h = 8 \<rparr>]"
proof -
  have d: "pl_depth render_example_player = 2" "pl_height render_example_player = 1"
    "pl_width render_example_player = 1"
    by (simp_all add: render_example_player_def)
  have u: "[0..<2] = [0, Suc 0]" "[0..<1] = [0]" by (simp_all add: numeral_2_eq_2)
  have cb: "cubeAt render_example_player c (Suc 0) 0 0
      = \<lparr> cube_color = c, cube_translation = (- (1 / 2), - (1 / 2), 0) \<rparr>" for c
    by (simp add: cubeAt_def render_example_player_def)
  have rc: "rectAt render_example_player c (Suc 0) 0 0
      = \<lparr> rect_color = c, rect_x = 46, rect_y = 46, rect_w = 8, rect_h = 8 \<rparr>" for c
    by (simp add: rectAt_def render_example_player_def)
  show ?thesis
    using render_pass_order_and_culling [of render_example_player]
    unfolding example_frame d u
    by (simp add: example_voxel0 example_voxel1 cb rc)
qed


end
